theory Spec2Isabelle
  imports Main "HOL-Library.Char_ord" "HOL-Library.List_Lexorder" "HOL-Library.Monad_Syntax"
    "HOL-Library.Multiset" "HOL-Library.AList"
begin

section \<open>Strings and character classes\<close>

text \<open>
  A Go \<^verbatim>\<open>string\<close> is a sequence of bytes; it is modelled as \<^typ>\<open>string\<close>, a list of
  8-bit characters. The regular expressions of \<^verbatim>\<open>i18n.go\<close> only name ASCII characters
  and classes of ASCII characters (or their complement), and no byte of a multi-byte
  UTF-8 sequence is an ASCII byte, so matching byte by byte agrees with Go's matching
  rune by rune.
\<close>

abbreviation sq :: char where "sq \<equiv> CHR 0x27"
abbreviation dq :: char where "dq \<equiv> CHR 0x22"

definition isQuote :: "char \<Rightarrow> bool" where
  \<comment> \<open>the class \<^verbatim>\<open>['"]\<close>\<close>
  "isQuote c \<longleftrightarrow> c = sq \<or> c = dq"

definition isSpace :: "char \<Rightarrow> bool" where
  \<comment> \<open>the class \<^verbatim>\<open>\s\<close> of Go's regexp syntax: tab, newline, form feed, carriage return, space\<close>
  "isSpace c \<longleftrightarrow> c = CHR 0x09 \<or> c = CHR 0x0A \<or> c = CHR 0x0C \<or> c = CHR 0x0D \<or> c = CHR 0x20"

definition isUpper :: "char \<Rightarrow> bool" where
  "isUpper c \<longleftrightarrow> CHR ''A'' \<le> c \<and> c \<le> CHR ''Z''"

definition isLower :: "char \<Rightarrow> bool" where
  "isLower c \<longleftrightarrow> CHR ''a'' \<le> c \<and> c \<le> CHR ''z''"

definition isDigit :: "char \<Rightarrow> bool" where
  "isDigit c \<longleftrightarrow> CHR ''0'' \<le> c \<and> c \<le> CHR ''9''"

definition isAlpha :: "char \<Rightarrow> bool" where
  \<comment> \<open>the class \<^verbatim>\<open>[A-Za-z]\<close>\<close>
  "isAlpha c \<longleftrightarrow> isUpper c \<or> isLower c"

definition isAlnum :: "char \<Rightarrow> bool" where
  \<comment> \<open>the class \<^verbatim>\<open>[A-Za-z0-9]\<close>\<close>
  "isAlnum c \<longleftrightarrow> isAlpha c \<or> isDigit c"

definition isWord :: "char \<Rightarrow> bool" where
  \<comment> \<open>the class \<^verbatim>\<open>\w\<close>: \<^verbatim>\<open>[0-9A-Za-z_]\<close>\<close>
  "isWord c \<longleftrightarrow> isAlnum c \<or> c = CHR ''_''"

definition toLowerChar :: "char \<Rightarrow> char" where
  "toLowerChar c = (if isUpper c then char_of (of_char c + (32::nat)) else c)"

definition strings_ToLower :: "string \<Rightarrow> string" where
  \<comment> \<open>\<^verbatim>\<open>strings.ToLower\<close> on ASCII letters; other bytes are kept. The only argument the
      program passes is the tail of a matched alias, which holds ASCII letters and digits.\<close>
  "strings_ToLower s = map toLowerChar s"

definition strings_HasPrefix :: "string \<Rightarrow> string \<Rightarrow> bool" where
  "strings_HasPrefix s p \<longleftrightarrow> take (length p) s = p"

definition strings_HasSuffix :: "string \<Rightarrow> string \<Rightarrow> bool" where
  "strings_HasSuffix s p \<longleftrightarrow> length p \<le> length s \<and> drop (length s - length p) s = p"

section \<open>The two regular expressions, as matchers\<close>

text \<open>
  Go's \<^verbatim>\<open>regexp\<close> prefers the leftmost match and, at one start position, the match the
  greedy operators reach first. In both patterns every repetition is followed by a
  character outside the repeated class, so at one start position at most one match
  exists and the greedy run over the class is the only candidate: the matchers below
  take each run with \<^const>\<open>takeWhile\<close> and never backtrack.
\<close>

definition skipSpace :: "string \<Rightarrow> string" where
  \<comment> \<open>\<^verbatim>\<open>\s*\<close>\<close>
  "skipSpace s = dropWhile isSpace s"

definition lit :: "string \<Rightarrow> string \<Rightarrow> string option" where
  \<comment> \<open>a literal: the rest of the text after it, when the text starts with it\<close>
  "lit p s = (if take (length p) s = p then Some (drop (length p) s) else None)"

definition quoted :: "string \<Rightarrow> (string \<times> string) option" where
  \<comment> \<open>\<^verbatim>\<open>['"]([^'"]+)['"]\<close>: the captured text and the rest\<close>
  "quoted s = (case s of
       [] \<Rightarrow> None
     | q # r \<Rightarrow>
         if \<not> isQuote q then None
         else (let k = takeWhile (\<lambda>c. \<not> isQuote c) r in
           if k = [] then None
           else (case dropWhile (\<lambda>c. \<not> isQuote c) r of
                   [] \<Rightarrow> None
                 | q' # rest \<Rightarrow> Some (k, rest))))"

definition callArgs :: "string \<Rightarrow> (string \<times> string) option" where
  \<comment> \<open>\<^verbatim>\<open>\s*\(\s*['"]([^'"]+)['"]\s*\)\<close>, the tail both patterns share\<close>
  "callArgs s = do {
     s1 \<leftarrow> lit ''('' (skipSpace s);
     (k, s2) \<leftarrow> quoted (skipSpace s1);
     s3 \<leftarrow> lit '')'' (skipSpace s2);
     Some (k, s3)
   }"

definition wordRun :: "string \<Rightarrow> (string \<times> string) option" where
  \<comment> \<open>\<^verbatim>\<open>(\w+)\<close>\<close>
  "wordRun s = (let x = takeWhile isWord s in
     if x = [] then None else Some (x, dropWhile isWord s))"

definition matchDeclAt :: "string \<Rightarrow> (string \<times> string \<times> string) option" where
  \<comment> \<open>\<^verbatim>\<open>const\s*{\s*t:\s*(\w+)\s*}\s*=\s*useTranslation\s*\(\s*['"]([^'"]+)['"]\s*\)\<close>
      at the start of the text: the alias, the namespace and the rest\<close>
  "matchDeclAt s = do {
     s1 \<leftarrow> lit ''const'' s;
     s2 \<leftarrow> lit ''{'' (skipSpace s1);
     s3 \<leftarrow> lit ''t:'' (skipSpace s2);
     (x, s4) \<leftarrow> wordRun (skipSpace s3);
     s5 \<leftarrow> lit ''}'' (skipSpace s4);
     s6 \<leftarrow> lit ''='' (skipSpace s5);
     s7 \<leftarrow> lit ''useTranslation'' (skipSpace s6);
     (ns, s8) \<leftarrow> callArgs s7;
     Some (x, ns, s8)
   }"

definition matchCallAt :: "bool \<Rightarrow> string \<Rightarrow> (string \<times> string \<times> string) option" where
  \<comment> \<open>\<^verbatim>\<open>\b(t[A-Za-z][A-Za-z0-9]*)\s*\(\s*['"]([^'"]+)['"]\s*\)\<close> at the start of the
      text: the alias, the key and the rest. \<open>prevWord\<close> tells whether the character
      before the start is a word character; the pattern starts with the word character
      \<^verbatim>\<open>t\<close>, so \<^verbatim>\<open>\b\<close> holds exactly when it is not.\<close>
  "matchCallAt prevWord s = (case s of
       t # a # r \<Rightarrow>
         if \<not> prevWord \<and> t = CHR ''t'' \<and> isAlpha a then do {
           (k, rest) \<leftarrow> callArgs (dropWhile isAlnum r);
           Some (t # a # takeWhile isAlnum r, k, rest)
         } else None
     | _ \<Rightarrow> None)"

text \<open>
  \<^verbatim>\<open>FindAllStringSubmatch(s, -1)\<close>: the successive leftmost matches, each search starting
  where the match before ended. A match of either pattern is never empty and ends with
  \<^verbatim>\<open>)\<close>, which is not a word character.
\<close>

function findAllDecls :: "string \<Rightarrow> (string \<times> string) list" where
  "findAllDecls [] = []"
| "findAllDecls (c # r) = (case matchDeclAt (c # r) of
       Some (x, ns, rest) \<Rightarrow> (x, ns) # findAllDecls rest
     | None \<Rightarrow> findAllDecls r)"
  by pat_completeness auto
termination
proof (relation "measure length")
  fix c r m x y ns rest
  assume "matchDeclAt (c # r) = Some m" "(x, y) = m" "(ns, rest) = y"
  then have m: "matchDeclAt (c # r) = Some (x, ns, rest)"
    by simp
  have l: "length b \<le> length a" if "lit p a = Some b" for p a b
    using that by (auto simp: lit_def split: if_splits)
  have s: "length (skipSpace a) \<le> length a" for a
    by (simp add: skipSpace_def length_dropWhile_le)
  have w: "length b \<le> length a" if "wordRun a = Some (v, b)" for a b v
    using that by (auto simp: wordRun_def Let_def length_dropWhile_le split: if_splits)
  have q: "length b < length a" if "quoted a = Some (k, b)" for a b k
  proof -
    from that obtain q0 r0 q1 where a: "a = q0 # r0"
      and d: "dropWhile (\<lambda>c. \<not> isQuote c) r0 = q1 # b"
      by (auto simp: quoted_def Let_def split: list.splits if_splits)
    have "length (dropWhile (\<lambda>c. \<not> isQuote c) r0) \<le> length r0"
      by (rule length_dropWhile_le)
    with a d show ?thesis by simp
  qed
  have ca: "length b < length a" if "callArgs a = Some (k, b)" for a b k
  proof -
    from that obtain s1 s2 where 1: "lit ''('' (skipSpace a) = Some s1"
      and 2: "quoted (skipSpace s1) = Some (k, s2)"
      and 3: "lit '')'' (skipSpace s2) = Some b"
      by (auto simp: callArgs_def bind_eq_Some_conv)
    from l [OF 1] s [of a] q [OF 2] s [of s1] l [OF 3] s [of s2] show ?thesis
      by linarith
  qed
  from m obtain s1 s2 s3 s4 s5 s6 s7 where
    1: "lit ''const'' (c # r) = Some s1" and 2: "lit ''{'' (skipSpace s1) = Some s2"
    and 3: "lit ''t:'' (skipSpace s2) = Some s3" and 4: "wordRun (skipSpace s3) = Some (x, s4)"
    and 5: "lit ''}'' (skipSpace s4) = Some s5" and 6: "lit ''='' (skipSpace s5) = Some s6"
    and 7: "lit ''useTranslation'' (skipSpace s6) = Some s7" and 8: "callArgs s7 = Some (ns, rest)"
    by (auto simp: matchDeclAt_def bind_eq_Some_conv)
  from l [OF 1] l [OF 2] l [OF 3] w [OF 4] l [OF 5] l [OF 6] l [OF 7] ca [OF 8]
    s [of s1] s [of s2] s [of s3] s [of s4] s [of s5] s [of s6]
  have "length rest < length (c # r)"
    by linarith
  then show "(rest, c # r) \<in> measure length"
    by simp
qed simp_all

function findAllCalls :: "bool \<Rightarrow> string \<Rightarrow> (string \<times> string) list" where
  "findAllCalls prevWord [] = []"
| "findAllCalls prevWord (c # r) = (case matchCallAt prevWord (c # r) of
       Some (a, k, rest) \<Rightarrow> (a, k) # findAllCalls False rest
     | None \<Rightarrow> findAllCalls (isWord c) r)"
  by pat_completeness auto
termination
proof (relation "measure (\<lambda>(p, s). length s)")
  fix prevWord c r m a y k rest
  assume "matchCallAt prevWord (c # r) = Some m" "(a, y) = m" "(k, rest) = y"
  then have m: "matchCallAt prevWord (c # r) = Some (a, k, rest)"
    by simp
  have l: "length b \<le> length a" if "lit p a = Some b" for p a b
    using that by (auto simp: lit_def split: if_splits)
  have s: "length (skipSpace a) \<le> length a" for a
    by (simp add: skipSpace_def length_dropWhile_le)
  have q: "length b < length a" if "quoted a = Some (k, b)" for a b k
  proof -
    from that obtain q0 r0 q1 where a: "a = q0 # r0"
      and d: "dropWhile (\<lambda>c. \<not> isQuote c) r0 = q1 # b"
      by (auto simp: quoted_def Let_def split: list.splits if_splits)
    have "length (dropWhile (\<lambda>c. \<not> isQuote c) r0) \<le> length r0"
      by (rule length_dropWhile_le)
    with a d show ?thesis by simp
  qed
  have ca: "length b < length a" if "callArgs a = Some (k, b)" for a b k
  proof -
    from that obtain s1 s2 where 1: "lit ''('' (skipSpace a) = Some s1"
      and 2: "quoted (skipSpace s1) = Some (k, s2)"
      and 3: "lit '')'' (skipSpace s2) = Some b"
      by (auto simp: callArgs_def bind_eq_Some_conv)
    from l [OF 1] s [of a] q [OF 2] s [of s1] l [OF 3] s [of s2] show ?thesis
      by linarith
  qed
  from m obtain r' where r: "r = hd r # r'" and 1: "callArgs (dropWhile isAlnum r') = Some (k, rest)"
    by (auto simp: matchCallAt_def bind_eq_Some_conv split: list.splits if_splits)
  have "length (dropWhile isAlnum r') \<le> length r'"
    by (rule length_dropWhile_le)
  with ca [OF 1] r have "length rest < length (c # r)"
    by (metis length_Cons less_Suc_eq less_le_trans not_less_eq)
  then show "((False, rest), prevWord, c # r) \<in> measure (\<lambda>(p, s). length s)"
    by simp
qed simp_all

section \<open>The environment\<close>

text \<open>
  The operating system and the libraries the program calls are parameters of the model:
  a \<open>sys\<close> holds what they answer. Nothing is assumed of them.
\<close>

datatype error =
    WalkError
  | ReadError string
  | NotJSONFile string
  | FileNotExist string
  | ParseError string
  | WriteError string

record sys =
  ReadFile :: "string \<Rightarrow> string option"
    \<comment> \<open>\<^verbatim>\<open>os.ReadFile\<close>: the content, or \<open>None\<close> when it returns an error\<close>
  NotExist :: "string \<Rightarrow> bool"
    \<comment> \<open>\<^verbatim>\<open>os.IsNotExist\<close> of the error of \<^verbatim>\<open>os.Stat\<close>\<close>
  WriteFileFails :: "string \<Rightarrow> bool"
    \<comment> \<open>\<^verbatim>\<open>os.WriteFile\<close> to this path returns an error\<close>
  Join :: "string \<Rightarrow> string \<Rightarrow> string"
    \<comment> \<open>\<^verbatim>\<open>filepath.Join\<close> of two elements\<close>
  Unmarshal :: "string \<Rightarrow> (string \<times> string) list option"
    \<comment> \<open>\<^verbatim>\<open>json.Unmarshal\<close> into a \<^verbatim>\<open>map[string]string\<close>: the members it stores, in the
        order it stores them, or \<open>None\<close> when it returns an error\<close>
  jsonString :: "string \<Rightarrow> string"
    \<comment> \<open>the JSON text \<^verbatim>\<open>encoding/json\<close> writes for a string\<close>
  RandomHex :: string
    \<comment> \<open>\<^verbatim>\<open>hex.EncodeToString\<close> of the eight bytes \<^verbatim>\<open>rand.Read\<close> fills\<close>

text \<open>
  A Go map is an association list with distinct keys: \<^verbatim>\<open>m[k] = v\<close> is
  \<^const>\<open>AList.update\<close> and \<^verbatim>\<open>v, ok := m[k]\<close> is \<^const>\<open>map_of\<close>. Go leaves the
  order in which \<^verbatim>\<open>range\<close> visits a map unspecified. Each \<^verbatim>\<open>range\<close> statement over
  a map therefore takes its order from an \<open>orders\<close>: a function that rearranges the
  entries of the map, and may do so differently at each execution of the statement (the
  first argument tells the executions apart).
\<close>

record orders =
  rangeFileMap :: "string \<Rightarrow> (string \<times> string) list \<Rightarrow> (string \<times> string) list"
    \<comment> \<open>\<^verbatim>\<open>range fileMap\<close> in \<^verbatim>\<open>extractTranslationKeys\<close>, for each path\<close>
  rangeNamespaceKeys :: "(string \<times> string list) list \<Rightarrow> (string \<times> string list) list"
    \<comment> \<open>\<^verbatim>\<open>range namespaceKeys\<close> in \<^verbatim>\<open>generateTranslationFiles\<close>\<close>
  rangeUniqueKeys :: "string \<Rightarrow> (string \<times> bool) list \<Rightarrow> (string \<times> bool) list"
    \<comment> \<open>\<^verbatim>\<open>range uniqueKeys\<close> in \<^verbatim>\<open>generateTranslationFiles\<close>, for each namespace\<close>
  rangeData :: "nat \<Rightarrow> (string \<times> string) list \<Rightarrow> (string \<times> string) list"
    \<comment> \<open>\<^verbatim>\<open>range data\<close> in \<^verbatim>\<open>mergeJSONFiles\<close>, for each position in \<^verbatim>\<open>files\<close>\<close>
  rangeMerged :: "(string \<times> string) list \<Rightarrow> (string \<times> string) list"
    \<comment> \<open>\<^verbatim>\<open>range data\<close> in \<^verbatim>\<open>writeJSONFile\<close>\<close>

definition permuting :: "orders \<Rightarrow> bool" where
  \<comment> \<open>every order visits each entry of the map once\<close>
  "permuting ords \<longleftrightarrow>
     (\<forall>p m. mset (rangeFileMap ords p m) = mset m) \<and>
     (\<forall>m. mset (rangeNamespaceKeys ords m) = mset m) \<and>
     (\<forall>n m. mset (rangeUniqueKeys ords n m) = mset m) \<and>
     (\<forall>i m. mset (rangeData ords i m) = mset m) \<and>
     (\<forall>m. mset (rangeMerged ords m) = mset m)"

section \<open>Extraction: \<^verbatim>\<open>i18n.go\<close>\<close>

record TranslationKey =
  Key :: string
  Namespace :: string
  File :: string

text \<open>
  The tree \<^verbatim>\<open>filepath.WalkDir\<close> walks, its entries in the order of the walk. A
  \<open>BrokenNode\<close> is an entry for which the walk hands an error to the callback.
\<close>

datatype node =
    FileNode string
  | DirNode string "node list"
  | BrokenNode string

fun nodeName :: "node \<Rightarrow> string" where
  "nodeName (FileNode name) = name"
| "nodeName (DirNode name entries) = name"
| "nodeName (BrokenNode name) = name"

definition shouldSkipDir :: "string \<Rightarrow> bool" where
  "shouldSkipDir dirName \<longleftrightarrow>
     dirName \<in> set [''node_modules'', ''vendor'', ''.git'', ''.next'', ''dist'', ''build'']"

text \<open>
  The callback both walks of \<^verbatim>\<open>extractTranslationKeys\<close> share up to the call that parses
  the file: an error of the walk ends it, a directory to skip is not entered, and a path
  is parsed when it ends in \<^verbatim>\<open>.tsx\<close>. The result is the list of paths parsed, in order.
\<close>

fun walkDir :: "sys \<Rightarrow> string \<Rightarrow> node \<Rightarrow> error + string list"
  and walkEntries :: "sys \<Rightarrow> string \<Rightarrow> node list \<Rightarrow> error + string list" where
  "walkDir sys path (BrokenNode name) = Inl WalkError"
| "walkDir sys path (FileNode name) =
     Inr (if strings_HasSuffix path ''.tsx'' then [path] else [])"
| "walkDir sys path (DirNode name entries) =
     (if shouldSkipDir name then Inr []
      else (case walkEntries sys path entries of
              Inl e \<Rightarrow> Inl e
            | Inr ps \<Rightarrow> Inr ((if strings_HasSuffix path ''.tsx'' then [path] else []) @ ps)))"
| "walkEntries sys dir [] = Inr []"
| "walkEntries sys dir (n # ns) =
     (case walkDir sys (Join sys dir (nodeName n)) n of
        Inl e \<Rightarrow> Inl e
      | Inr ps \<Rightarrow> (case walkEntries sys dir ns of
                    Inl e \<Rightarrow> Inl e
                  | Inr qs \<Rightarrow> Inr (ps @ qs)))"

definition extractUseTranslationDeclarations ::
    "sys \<Rightarrow> string \<Rightarrow> error + (string \<times> string) list" where
  "extractUseTranslationDeclarations sys filePath =
     (case ReadFile sys filePath of
        None \<Rightarrow> Inl (ReadError filePath)
      | Some contentStr \<Rightarrow>
          Inr (fold (\<lambda>(tVariable, namespace) translationMap.
                       AList.update tVariable namespace translationMap)
                 (findAllDecls contentStr) []))"

definition namespaceFor :: "(string \<times> string) list \<Rightarrow> string \<Rightarrow> string" where
  \<comment> \<open>lines 442 to 453 of \<^verbatim>\<open>parseFileWithMapping\<close>: the namespace of a matched alias\<close>
  "namespaceFor globalMapping tVariable =
     (case map_of globalMapping tVariable of
        Some ns \<Rightarrow> ns
      | None \<Rightarrow>
          if strings_HasPrefix tVariable ''t'' \<and> length tVariable > 1
          then strings_ToLower (drop 1 tVariable)
          else ''common'')"

definition parseFileWithMapping ::
    "sys \<Rightarrow> string \<Rightarrow> (string \<times> string) list \<Rightarrow> error + TranslationKey list" where
  "parseFileWithMapping sys filePath globalMapping =
     (case ReadFile sys filePath of
        None \<Rightarrow> Inl (ReadError filePath)
      | Some contentStr \<Rightarrow>
          Inr (fold (\<lambda>(tVariable, key) keys.
                       keys @ [\<lparr>Key = key, Namespace = namespaceFor globalMapping tVariable,
                                File = filePath\<rparr>])
                 (findAllCalls False contentStr) []))"

definition globalTranslationMap :: "sys \<Rightarrow> orders \<Rightarrow> string list \<Rightarrow> (string \<times> string) list" where
  \<comment> \<open>the first pass of \<^verbatim>\<open>extractTranslationKeys\<close> over the paths of the walk; a file
      that cannot be read is skipped with a warning\<close>
  "globalTranslationMap sys ords paths =
     fold (\<lambda>path globalMap.
             case extractUseTranslationDeclarations sys path of
               Inl e \<Rightarrow> globalMap
             | Inr fileMap \<Rightarrow>
                 fold (\<lambda>(tVar, namespace) globalMap. AList.update tVar namespace globalMap)
                   (rangeFileMap ords path fileMap) globalMap)
       paths []"

definition extractTranslationKeys ::
    "sys \<Rightarrow> orders \<Rightarrow> string \<Rightarrow> node \<Rightarrow> error + TranslationKey list" where
  "extractTranslationKeys sys ords rootDir root =
     (case walkDir sys rootDir root of
        Inl e \<Rightarrow> Inl e
      | Inr paths \<Rightarrow>
          Inr (fold (\<lambda>path keys.
                       case parseFileWithMapping sys path (globalTranslationMap sys ords paths) of
                         Inl e \<Rightarrow> keys
                       | Inr fileKeys \<Rightarrow> keys @ fileKeys)
                 paths []))"

text \<open>
  \<^verbatim>\<open>json.MarshalIndent(m, "", "  ")\<close> of a \<^verbatim>\<open>map[string]string\<close>: the members sorted by
  key (\<^verbatim>\<open>encoding/json\<close> sorts the keys of a map as byte strings), one on each line
  behind the indent, or \<^verbatim>\<open>{}\<close> for the empty map.
\<close>

fun joinWith :: "string \<Rightarrow> string list \<Rightarrow> string" where
  "joinWith sep [] = []"
| "joinWith sep [x] = x"
| "joinWith sep (x # y # ys) = x @ sep @ joinWith sep (y # ys)"

definition jsonObject :: "sys \<Rightarrow> (string \<times> string) list \<Rightarrow> string" where
  \<comment> \<open>the members in the order given\<close>
  "jsonObject sys members =
     (if members = [] then ''{}''
      else ''{'' @ [CHR 0x0A] @
        joinWith ('','' @ [CHR 0x0A])
          (map (\<lambda>(k, v). ''  '' @ jsonString sys k @ '': '' @ jsonString sys v) members) @
        [CHR 0x0A] @ ''}'')"

definition json_MarshalIndent :: "sys \<Rightarrow> (string \<times> string) list \<Rightarrow> string" where
  "json_MarshalIndent sys m = jsonObject sys (sort_key fst m)"

definition namespaceFileName :: "sys \<Rightarrow> string \<Rightarrow> string \<Rightarrow> string" where
  \<comment> \<open>lines 490 and 491\<close>
  "namespaceFileName sys rootDir namespace =
     (let i18nDir = Join sys rootDir ''.i18n'' in Join sys i18nDir (namespace @ ''.json''))"

text \<open>
  The loop over \<^verbatim>\<open>namespaceKeys\<close>: the files written, in order, and the error that ended
  the loop, if any.
\<close>

fun writeNamespaces ::
    "sys \<Rightarrow> orders \<Rightarrow> string \<Rightarrow> (string \<times> string list) list \<Rightarrow>
     (string \<times> string) list \<times> error option" where
  "writeNamespaces sys ords rootDir [] = ([], None)"
| "writeNamespaces sys ords rootDir ((namespace, keysList) # rest) =
     (let uniqueKeys = fold (\<lambda>key uniqueKeys. AList.update key True uniqueKeys) keysList [];
          translationMap =
            fold (\<lambda>(key, b) translationMap. AList.update key [] translationMap)
              (rangeUniqueKeys ords namespace uniqueKeys) [];
          jsonData = json_MarshalIndent sys translationMap;
          fileName = namespaceFileName sys rootDir namespace
      in if WriteFileFails sys fileName then ([], Some (WriteError fileName))
         else (case writeNamespaces sys ords rootDir rest of
                 (written, err) \<Rightarrow> ((fileName, jsonData) # written, err)))"

definition generateTranslationFiles ::
    "sys \<Rightarrow> orders \<Rightarrow> string \<Rightarrow> TranslationKey list \<Rightarrow>
     (string \<times> string) list \<times> error option" where
  "generateTranslationFiles sys ords rootDir keys =
     (let namespaceKeys =
            fold (\<lambda>key namespaceKeys.
                    AList.update (Namespace key)
                      ((case map_of namespaceKeys (Namespace key) of
                          None \<Rightarrow> []
                        | Some keysList \<Rightarrow> keysList) @ [Key key])
                      namespaceKeys)
              keys []
      in writeNamespaces sys ords rootDir (rangeNamespaceKeys ords namespaceKeys))"

section \<open>Merging: \<^verbatim>\<open>join_i18n.go\<close>\<close>

text \<open>
  The calls to the operating system are recorded, in order, so that what happens before
  what can be stated. A write that fails is recorded as such: what it leaves on disk is
  up to \<^verbatim>\<open>os.WriteFile\<close>.
\<close>

datatype event =
    EvStat string
  | EvRead string
  | EvWrite string string
  | EvWriteFailed string

definition mergeEntry ::
    "string \<times> string \<Rightarrow> (string \<times> string) list \<Rightarrow> (string \<times> string) list" where
  \<comment> \<open>the body of the loop over \<^verbatim>\<open>data\<close>\<close>
  "mergeEntry = (\<lambda>(key, value) merged.
     case map_of merged key of
       None \<Rightarrow> AList.update key value merged
     | Some existingValue \<Rightarrow>
         if existingValue = [] \<and> value \<noteq> [] then AList.update key value merged
         else merged)"

fun mergeLoop ::
    "sys \<Rightarrow> orders \<Rightarrow> nat \<Rightarrow> string list \<Rightarrow> (string \<times> string) list \<Rightarrow>
     event list \<times> (error + (string \<times> string) list)" where
  "mergeLoop sys ords i [] merged = ([], Inr merged)"
| "mergeLoop sys ords i (file # files) merged =
     (case ReadFile sys file of
        None \<Rightarrow> ([EvRead file], Inl (ReadError file))
      | Some content \<Rightarrow>
          (case Unmarshal sys content of
             None \<Rightarrow> ([EvRead file], Inl (ParseError file))
           | Some members \<Rightarrow>
               (let data = fold (\<lambda>(k, v) data. AList.update k v data) members [];
                    merged' = fold mergeEntry (rangeData ords i data) merged
                in case mergeLoop sys ords (Suc i) files merged' of
                     (evs, r) \<Rightarrow> (EvRead file # evs, r))))"

definition mergeJSONFiles ::
    "sys \<Rightarrow> orders \<Rightarrow> string list \<Rightarrow> event list \<times> (error + (string \<times> string) list)" where
  "mergeJSONFiles sys ords files = mergeLoop sys ords 0 files []"

definition writeJSONFile ::
    "sys \<Rightarrow> orders \<Rightarrow> string \<Rightarrow> (string \<times> string) list \<Rightarrow> event list \<times> error option" where
  "writeJSONFile sys ords filename data =
     (let keys = sort (map fst (rangeMerged ords data));
          orderedData =
            fold (\<lambda>key orderedData.
                    AList.update key (case map_of data key of None \<Rightarrow> [] | Some v \<Rightarrow> v)
                      orderedData)
              keys [];
          jsonData = json_MarshalIndent sys orderedData
      in if WriteFileFails sys filename then ([EvWriteFailed filename], Some (WriteError filename))
         else ([EvWrite filename jsonData], None))"

definition generateRandomFileName :: "sys \<Rightarrow> string" where
  "generateRandomFileName sys = ''merged_i18n_'' @ RandomHex sys"

fun validateInputs :: "sys \<Rightarrow> string list \<Rightarrow> event list \<times> error option" where
  "validateInputs sys [] = ([], None)"
| "validateInputs sys (file # files) =
     (if \<not> strings_HasSuffix file ''.json'' then ([], Some (NotJSONFile file))
      else if NotExist sys file then ([EvStat file], Some (FileNotExist file))
      else (case validateInputs sys files of (evs, err) \<Rightarrow> (EvStat file # evs, err)))"

definition outputName :: "sys \<Rightarrow> string \<Rightarrow> string" where
  \<comment> \<open>lines 49 to 55 of \<^verbatim>\<open>runJoinI18n\<close>: the path written; \<open>outputFile\<close> is the value of the
      \<^verbatim>\<open>--output\<close> flag\<close>
  "outputName sys outputFile =
     (let output = (if outputFile = [] then generateRandomFileName sys else outputFile)
      in if \<not> strings_HasSuffix output ''.json'' then output @ ''.json'' else output)"

text \<open>
  \<^verbatim>\<open>runJoinI18n\<close>: the calls made, and either the error that ends the command with
  \<^verbatim>\<open>os.Exit(1)\<close> or what the last line prints: the number of files, the output path and
  the number of keys. \<^const>\<open>validateInputs\<close> is the first loop of the function.
\<close>

definition runJoinI18n ::
    "sys \<Rightarrow> orders \<Rightarrow> string \<Rightarrow> string list \<Rightarrow> event list \<times> (error + nat \<times> string \<times> nat)" where
  "runJoinI18n sys ords outputFile args =
     (case validateInputs sys args of
        (evs1, Some e) \<Rightarrow> (evs1, Inl e)
      | (evs1, None) \<Rightarrow>
          (case mergeJSONFiles sys ords args of
             (evs2, Inl e) \<Rightarrow> (evs1 @ evs2, Inl e)
           | (evs2, Inr merged) \<Rightarrow>
               (let output = outputName sys outputFile
                in case writeJSONFile sys ords output merged of
                     (evs3, Some e) \<Rightarrow> (evs1 @ evs2 @ evs3, Inl e)
                   | (evs3, None) \<Rightarrow>
                       (evs1 @ evs2 @ evs3, Inr (length args, output, length merged)))))"

definition exitCode :: "error + 'a \<Rightarrow> nat" where
  "exitCode r = (case r of Inl e \<Rightarrow> 1 | Inr v \<Rightarrow> 0)"

fun isStat :: "event \<Rightarrow> bool" where
  "isStat (EvStat p) = True"
| "isStat e = False"

fun isWrite :: "event \<Rightarrow> bool" where
  "isWrite (EvWrite p c) = True"
| "isWrite e = False"

section \<open>The patterns, as sets of texts\<close>

definition spaces :: "string \<Rightarrow> bool" where
  "spaces w \<longleftrightarrow> (\<forall>c \<in> set w. isSpace c)"

definition argsToken :: "string \<Rightarrow> string \<Rightarrow> bool" where
  "argsToken k t \<longleftrightarrow> (\<exists>w1 w2 q1 q2 w3.
     spaces w1 \<and> spaces w2 \<and> spaces w3 \<and> isQuote q1 \<and> isQuote q2 \<and>
     k \<noteq> [] \<and> (\<forall>c \<in> set k. \<not> isQuote c) \<and>
     t = w1 @ ''('' @ w2 @ [q1] @ k @ [q2] @ w3 @ '')'')"

definition callToken :: "string \<Rightarrow> string \<Rightarrow> string \<Rightarrow> bool" where
  "callToken a k t \<longleftrightarrow> (\<exists>c ident t'.
     a = CHR ''t'' # c # ident \<and> isAlpha c \<and> (\<forall>d \<in> set ident. isAlnum d) \<and>
     argsToken k t' \<and> t = a @ t')"

definition declToken :: "string \<Rightarrow> string \<Rightarrow> string \<Rightarrow> bool" where
  "declToken x ns t \<longleftrightarrow> (\<exists>w1 w2 w3 w4 w5 w6 t'.
     spaces w1 \<and> spaces w2 \<and> spaces w3 \<and> spaces w4 \<and> spaces w5 \<and> spaces w6 \<and>
     x \<noteq> [] \<and> (\<forall>c \<in> set x. isWord c) \<and> argsToken ns t' \<and>
     t = ''const'' @ w1 @ ''{'' @ w2 @ ''t:'' @ w3 @ x @ w4 @ ''}'' @ w5 @ ''='' @ w6 @
         ''useTranslation'' @ t')"

section \<open>Example environments\<close>

definition exampleSys ::
    "(string \<times> string) list \<Rightarrow> (string \<times> (string \<times> string) list) list \<Rightarrow> sys" where
  \<comment> \<open>the files that exist, with their contents, and what \<^verbatim>\<open>json.Unmarshal\<close> stores for
      a content; every write succeeds\<close>
  "exampleSys files parsed =
     \<lparr>ReadFile = map_of files,
      NotExist = (\<lambda>p. map_of files p = None),
      WriteFileFails = (\<lambda>p. False),
      Join = (\<lambda>a b. a @ ''/'' @ b),
      Unmarshal = map_of parsed,
      jsonString = (\<lambda>s. [dq] @ s @ [dq]),
      RandomHex = ''00112233aabbccdd''\<rparr>"

definition insertionOrder :: orders where
  "insertionOrder =
     \<lparr>rangeFileMap = (\<lambda>p m. m), rangeNamespaceKeys = (\<lambda>m. m), rangeUniqueKeys = (\<lambda>n m. m),
      rangeData = (\<lambda>i m. m), rangeMerged = (\<lambda>m. m)\<rparr>"

definition reverseOrder :: orders where
  "reverseOrder =
     \<lparr>rangeFileMap = (\<lambda>p m. rev m), rangeNamespaceKeys = (\<lambda>m. rev m),
      rangeUniqueKeys = (\<lambda>n m. rev m), rangeData = (\<lambda>i m. rev m), rangeMerged = (\<lambda>m. rev m)\<rparr>"

section \<open>The specification's rules\<close>

definition spec_namespace :: "(string \<times> string) list \<Rightarrow> string \<Rightarrow> string" where
  \<comment> \<open>the resolution rule in the specification's words: the alias map first; otherwise
      the alias without its leading \<^verbatim>\<open>t\<close>, in lower case; \<^verbatim>\<open>common\<close> for the alias \<^verbatim>\<open>t\<close>\<close>
  "spec_namespace globalMap alias =
     (case map_of globalMap alias of
        Some ns \<Rightarrow> ns
      | None \<Rightarrow> if alias = ''t'' then ''common'' else strings_ToLower (tl alias))"

text \<open>
  The successive leftmost, non-overlapping occurrences of a pattern in a text: at each
  position either a text of the pattern starts there, is taken, and the search goes on
  behind it, or none starts there and the search goes on one character further.
\<close>

inductive leftmostCalls :: "bool \<Rightarrow> string \<Rightarrow> (string \<times> string) list \<Rightarrow> bool" where
  leftmostCalls_end: "leftmostCalls prevWord [] []"
| leftmostCalls_match:
    "\<not> prevWord \<Longrightarrow> callToken a k t \<Longrightarrow> leftmostCalls False r ms \<Longrightarrow>
     leftmostCalls prevWord (t @ r) ((a, k) # ms)"
| leftmostCalls_skip:
    "prevWord \<or> (\<forall>a k t r'. callToken a k t \<longrightarrow> c # r \<noteq> t @ r') \<Longrightarrow>
     leftmostCalls (isWord c) r ms \<Longrightarrow>
     leftmostCalls prevWord (c # r) ms"

inductive leftmostDecls :: "string \<Rightarrow> (string \<times> string) list \<Rightarrow> bool" where
  leftmostDecls_end: "leftmostDecls [] []"
| leftmostDecls_match:
    "declToken x ns t \<Longrightarrow> leftmostDecls r ms \<Longrightarrow> leftmostDecls (t @ r) ((x, ns) # ms)"
| leftmostDecls_skip:
    "\<forall>x ns t r'. declToken x ns t \<longrightarrow> c # r \<noteq> t @ r' \<Longrightarrow>
     leftmostDecls r ms \<Longrightarrow>
     leftmostDecls (c # r) ms"

text \<open>The declarations of a file, in the order of the scan; none when it cannot be read.\<close>

definition declsOf :: "sys \<Rightarrow> string \<Rightarrow> (string \<times> string) list" where
  "declsOf sys path = (case ReadFile sys path of None \<Rightarrow> [] | Some c \<Rightarrow> findAllDecls c)"

definition declsIn :: "sys \<Rightarrow> string \<Rightarrow> (string \<times> string) list \<Rightarrow> bool" where
  "declsIn sys path ms \<longleftrightarrow>
     (case ReadFile sys path of None \<Rightarrow> ms = [] | Some c \<Rightarrow> leftmostDecls c ms)"

text \<open>
  The merge policy in the specification's words, for one more dictionary: a key not seen
  takes its value as it is; a key seen with an empty value takes a new value that is not
  empty; a key seen with a value that is not empty keeps it.
\<close>

definition mergePolicy :: "(string \<rightharpoonup> string) \<Rightarrow> (string \<rightharpoonup> string) \<Rightarrow> (string \<rightharpoonup> string)" where
  "mergePolicy merged d =
     (\<lambda>key. case d key of
        None \<Rightarrow> merged key
      | Some value \<Rightarrow>
          (case merged key of
             None \<Rightarrow> Some value
           | Some existing \<Rightarrow> if existing = [] \<and> value \<noteq> [] then Some value else Some existing))"

fun firstNonEmpty :: "(string \<rightharpoonup> string) list \<Rightarrow> string \<Rightarrow> string option" where
  \<comment> \<open>the first value of the key that is not empty, in the order of the dictionaries; the
      empty value when the key only has empty values; nothing when no dictionary has it\<close>
  "firstNonEmpty [] key = None"
| "firstNonEmpty (d # ds) key =
     (case d key of
        None \<Rightarrow> firstNonEmpty ds key
      | Some value \<Rightarrow>
          if value \<noteq> [] then Some value
          else (case firstNonEmpty ds key of None \<Rightarrow> Some [] | Some value' \<Rightarrow> Some value'))"

definition parsed :: "sys \<Rightarrow> string \<Rightarrow> (string \<times> string) list option" where
  \<comment> \<open>the members \<^verbatim>\<open>json.Unmarshal\<close> stores for the content of a file, when it can be read
      and parsed\<close>
  "parsed sys file = Option.bind (ReadFile sys file) (Unmarshal sys)"

definition dictOf :: "(string \<times> string) list \<Rightarrow> (string \<rightharpoonup> string)" where
  \<comment> \<open>the dictionary the members make: a member stored later replaces an earlier one of
      the same key\<close>
  "dictOf members = map_of (rev members)"

section \<open>The matchers accept the patterns\<close>

lemma lit_iff: "lit p s = Some r \<longleftrightarrow> s = p @ r"
  by (auto simp: lit_def) (metis append_take_drop_id)

lemma run_split:
  "(\<exists>w. (\<forall>c \<in> set w. P c) \<and> s = w @ r \<and> (r = [] \<or> \<not> P (hd r))) \<longleftrightarrow> dropWhile P s = r"
proof
  assume "\<exists>w. (\<forall>c \<in> set w. P c) \<and> s = w @ r \<and> (r = [] \<or> \<not> P (hd r))"
  then obtain w where w: "\<forall>c \<in> set w. P c" "s = w @ r" "r = [] \<or> \<not> P (hd r)" by blast
  then show "dropWhile P s = r"
    by (cases r) (auto simp: dropWhile_append)
next
  assume d: "dropWhile P s = r"
  have "(\<forall>c \<in> set (takeWhile P s). P c)" by (auto dest: set_takeWhileD)
  moreover have "s = takeWhile P s @ r" using d by (metis takeWhile_dropWhile_id)
  moreover have "r = [] \<or> \<not> P (hd r)" using d by (metis hd_dropWhile)
  ultimately show "\<exists>w. (\<forall>c \<in> set w. P c) \<and> s = w @ r \<and> (r = [] \<or> \<not> P (hd r))" by blast
qed

lemma run_take:
  "(\<forall>c \<in> set w. P c) \<Longrightarrow> r = [] \<or> \<not> P (hd r) \<Longrightarrow> takeWhile P (w @ r) = w"
  by (cases r) (auto simp: takeWhile_append)

lemma spaced_lit:
  assumes "p \<noteq> []" "\<not> isSpace (hd p)"
  shows "lit p (skipSpace s) = Some r \<longleftrightarrow> (\<exists>w. spaces w \<and> s = w @ p @ r)"
proof -
  have "lit p (skipSpace s) = Some r \<longleftrightarrow> dropWhile isSpace s = p @ r"
    by (simp add: lit_iff skipSpace_def)
  also have "\<dots> \<longleftrightarrow> (\<exists>w. (\<forall>c \<in> set w. isSpace c) \<and> s = w @ (p @ r) \<and> (p @ r = [] \<or> \<not> isSpace (hd (p @ r))))"
    by (simp only: run_split)
  also have "\<dots> \<longleftrightarrow> (\<exists>w. spaces w \<and> s = w @ p @ r)"
    using assms by (simp add: spaces_def)
  finally show ?thesis .
qed

lemma quoted_iff:
  "quoted s = Some (k, r) \<longleftrightarrow>
   (\<exists>q1 q2. isQuote q1 \<and> isQuote q2 \<and> k \<noteq> [] \<and> (\<forall>c \<in> set k. \<not> isQuote c) \<and> s = [q1] @ k @ [q2] @ r)"
  (is "?L \<longleftrightarrow> ?R")
proof
  assume ?L
  then obtain q1 s' q2 where s: "s = q1 # s'" and q1: "isQuote q1"
    and k1: "k = takeWhile (\<lambda>c. \<not> isQuote c) s'" and k2: "k \<noteq> []"
    and d: "dropWhile (\<lambda>c. \<not> isQuote c) s' = q2 # r"
    by (auto simp: quoted_def Let_def split: list.splits if_splits)
  have "isQuote q2"
    using d hd_dropWhile [of "\<lambda>c. \<not> isQuote c" s'] by auto
  moreover have "s' = k @ q2 # r"
    unfolding k1 d [symmetric] by simp
  moreover have "\<forall>c \<in> set k. \<not> isQuote c"
    unfolding k1 using set_takeWhileD by fastforce
  ultimately show ?R using s q1 k2 by auto
next
  assume ?R
  then obtain q1 q2 where q: "isQuote q1" "isQuote q2" and k: "k \<noteq> []" "\<forall>c \<in> set k. \<not> isQuote c"
    and s: "s = [q1] @ k @ [q2] @ r" by blast
  have "takeWhile (\<lambda>c. \<not> isQuote c) (k @ q2 # r) = k" using k q by (simp add: takeWhile_append)
  moreover have "dropWhile (\<lambda>c. \<not> isQuote c) (k @ q2 # r) = q2 # r" using k q by (simp add: dropWhile_append)
  ultimately show ?L using s q k by (simp add: quoted_def)
qed

lemma spaced_quoted:
  "quoted (skipSpace s) = Some (k, r) \<longleftrightarrow>
   (\<exists>w q1 q2. spaces w \<and> isQuote q1 \<and> isQuote q2 \<and> k \<noteq> [] \<and> (\<forall>c \<in> set k. \<not> isQuote c) \<and>
      s = w @ [q1] @ k @ [q2] @ r)"
  (is "?L \<longleftrightarrow> ?R")
proof
  assume ?L
  then obtain q1 q2 where q: "isQuote q1" "isQuote q2" "k \<noteq> []" "\<forall>c \<in> set k. \<not> isQuote c"
    and d: "dropWhile isSpace s = [q1] @ k @ [q2] @ r"
    by (auto simp: quoted_iff skipSpace_def)
  from d obtain w where "\<forall>c \<in> set w. isSpace c" "s = w @ [q1] @ k @ [q2] @ r"
    using run_split [of isSpace s "[q1] @ k @ [q2] @ r"] by blast
  then show ?R using q unfolding spaces_def by blast
next
  assume ?R
  then obtain w q1 q2 where w: "spaces w" and q: "isQuote q1" "isQuote q2" "k \<noteq> []" "\<forall>c \<in> set k. \<not> isQuote c"
    and s: "s = w @ [q1] @ k @ [q2] @ r" by blast
  have "\<not> isSpace q1" using q by (auto simp: isQuote_def isSpace_def)
  then have "dropWhile isSpace s = [q1] @ k @ [q2] @ r"
    using w s run_split [of isSpace s "[q1] @ k @ [q2] @ r"] by (auto simp: spaces_def)
  then show ?L using q by (auto simp: quoted_iff skipSpace_def)
qed

lemma callArgs_iff: "callArgs s = Some (k, r) \<longleftrightarrow> (\<exists>t. argsToken k t \<and> s = t @ r)"
  (is "?L \<longleftrightarrow> ?R")
proof
  assume ?L
  then obtain s1 s2 where 1: "lit ''('' (skipSpace s) = Some s1"
    and 2: "quoted (skipSpace s1) = Some (k, s2)" and 3: "lit '')'' (skipSpace s2) = Some r"
    by (auto simp: callArgs_def bind_eq_Some_conv)
  from 1 obtain w1 where w1: "spaces w1" "s = w1 @ ''('' @ s1"
    by (auto simp: spaced_lit isSpace_def)
  from 2 obtain w2 q1 q2 where w2: "spaces w2" "isQuote q1" "isQuote q2" "k \<noteq> []"
    "\<forall>c \<in> set k. \<not> isQuote c" "s1 = w2 @ [q1] @ k @ [q2] @ s2"
    unfolding spaced_quoted by blast
  from 3 obtain w3 where w3: "spaces w3" "s2 = w3 @ '')'' @ r"
    by (auto simp: spaced_lit isSpace_def)
  have "argsToken k (w1 @ ''('' @ w2 @ [q1] @ k @ [q2] @ w3 @ '')'')"
    unfolding argsToken_def using w1(1) w2(1-5) w3(1) by blast
  moreover have "s = (w1 @ ''('' @ w2 @ [q1] @ k @ [q2] @ w3 @ '')'') @ r"
    using w1(2) w2(6) w3(2) by simp
  ultimately show ?R by blast
next
  assume ?R
  then obtain w1 w2 q1 q2 w3 where w: "spaces w1" "spaces w2" "spaces w3" "isQuote q1" "isQuote q2"
    "k \<noteq> []" "\<forall>c \<in> set k. \<not> isQuote c"
    and s: "s = (w1 @ ''('' @ w2 @ [q1] @ k @ [q2] @ w3 @ '')'') @ r"
    unfolding argsToken_def by blast
  have 1: "lit ''('' (skipSpace s) = Some (w2 @ [q1] @ k @ [q2] @ w3 @ '')'' @ r)"
    using w(1) s by (auto simp: spaced_lit isSpace_def)
  have 2: "quoted (skipSpace (w2 @ [q1] @ k @ [q2] @ w3 @ '')'' @ r)) = Some (k, w3 @ '')'' @ r)"
    unfolding spaced_quoted using w by blast
  have 3: "lit '')'' (skipSpace (w3 @ '')'' @ r)) = Some r"
    using w(3) by (auto simp: spaced_lit isSpace_def)
  show ?L
    unfolding callArgs_def using 1 2 3 by simp
qed

lemma spaced_word:
  "(\<exists>s4. wordRun (skipSpace s) = Some (x, s4) \<and> lit p (skipSpace s4) = Some r) \<longleftrightarrow>
   (\<exists>w3 w4. spaces w3 \<and> spaces w4 \<and> x \<noteq> [] \<and> (\<forall>c \<in> set x. isWord c) \<and> s = w3 @ x @ w4 @ p @ r)"
  if p: "p \<noteq> []" "\<not> isSpace (hd p)" "\<not> isWord (hd p)"
proof -
  have sw: "\<not> (isSpace c \<and> isWord c)" for c
    by (auto simp: isSpace_def isWord_def isAlnum_def isAlpha_def isUpper_def isLower_def isDigit_def)
  show ?thesis (is "?L \<longleftrightarrow> ?R")
  proof
    assume ?L
    then obtain s4 where 1: "wordRun (skipSpace s) = Some (x, s4)" and 2: "lit p (skipSpace s4) = Some r"
      by blast
    from 1 have x: "x = takeWhile isWord (skipSpace s)" "x \<noteq> []" and s4: "s4 = dropWhile isWord (skipSpace s)"
      by (auto simp: wordRun_def Let_def split: if_splits)
    obtain w3 where w3: "spaces w3" "s = w3 @ skipSpace s"
      using run_split [of isSpace s "skipSpace s"] by (auto simp: skipSpace_def spaces_def)
    have xs: "skipSpace s = x @ s4"
      unfolding x s4 by simp
    have xw: "\<forall>c \<in> set x. isWord c"
      unfolding x using set_takeWhileD by fastforce
    from 2 obtain w4 where w4: "spaces w4" "s4 = w4 @ p @ r"
      using p by (auto simp: spaced_lit)
    show ?R
      using w3 xs xw w4 x(2) by (metis append_assoc)
  next
    assume ?R
    then obtain w3 w4 where w: "spaces w3" "spaces w4" "x \<noteq> []" "\<forall>c \<in> set x. isWord c"
      and s: "s = w3 @ x @ w4 @ p @ r" by blast
    have nx: "\<not> isSpace (hd (x @ w4 @ p @ r))"
      using w(3,4) sw by (cases x) auto
    have "skipSpace s = x @ w4 @ p @ r"
      unfolding skipSpace_def using run_split [of isSpace s "x @ w4 @ p @ r"] w(1) s nx
      by (auto simp: spaces_def)
    moreover have nw: "w4 @ p @ r = [] \<or> \<not> isWord (hd (w4 @ p @ r))"
      using w(2) p sw by (cases w4) (auto simp: spaces_def)
    then have "takeWhile isWord (x @ w4 @ p @ r) = x" "dropWhile isWord (x @ w4 @ p @ r) = w4 @ p @ r"
      using w(4) run_take [of x isWord "w4 @ p @ r"] run_split [of isWord "x @ w4 @ p @ r" "w4 @ p @ r"]
      by blast+
    ultimately have "wordRun (skipSpace s) = Some (x, w4 @ p @ r)"
      using w(3) by (simp add: wordRun_def)
    moreover have "lit p (skipSpace (w4 @ p @ r)) = Some r"
      using p w(2) by (auto simp: spaced_lit)
    ultimately show ?L by blast
  qed
qed

lemma declTokenI:
  assumes "spaces w1" "spaces w2" "spaces w3" "spaces w4" "x \<noteq> []" "\<forall>c \<in> set x. isWord c"
    "spaces w5" "spaces w6" "argsToken ns t'"
  shows "declToken x ns (''const'' @ w1 @ ''{'' @ w2 @ ''t:'' @ w3 @ x @ w4 @ ''}'' @ w5 @ ''='' @
    w6 @ ''useTranslation'' @ t')"
  unfolding declToken_def
  apply (rule exI [of _ w1], rule exI [of _ w2], rule exI [of _ w3], rule exI [of _ w4])
  apply (rule exI [of _ w5], rule exI [of _ w6], rule exI [of _ t'])
  using assms by simp

lemma declTokenE:
  assumes "declToken x ns t"
  obtains w1 w2 w3 w4 w5 w6 t' where
    "t = ''const'' @ w1 @ ''{'' @ w2 @ ''t:'' @ w3 @ x @ w4 @ ''}'' @ w5 @ ''='' @ w6 @
         ''useTranslation'' @ t'"
    "spaces w1" "spaces w2" "spaces w3" "spaces w4" "spaces w5" "spaces w6"
    "x \<noteq> []" "\<forall>c \<in> set x. isWord c" "argsToken ns t'"
  using assms unfolding declToken_def by (elim exE conjE) (rule that)

lemma matchDeclAt_iff:
  "matchDeclAt s = Some (x, ns, r) \<longleftrightarrow> (\<exists>t. declToken x ns t \<and> s = t @ r)"
  (is "?L \<longleftrightarrow> ?R")
proof
  assume ?L
  then obtain s1 s2 s3 s4 s5 s6 s7 where
    1: "lit ''const'' s = Some s1" and 2: "lit ''{'' (skipSpace s1) = Some s2"
    and 3: "lit ''t:'' (skipSpace s2) = Some s3" and 4: "wordRun (skipSpace s3) = Some (x, s4)"
    and 5: "lit ''}'' (skipSpace s4) = Some s5" and 6: "lit ''='' (skipSpace s5) = Some s6"
    and 7: "lit ''useTranslation'' (skipSpace s6) = Some s7" and 8: "callArgs s7 = Some (ns, r)"
    by (auto simp: matchDeclAt_def bind_eq_Some_conv)
  from 1 have a1: "s = ''const'' @ s1"
    by (simp only: lit_iff)
  from 2 obtain w1 where a2: "spaces w1" "s1 = w1 @ ''{'' @ s2"
    by (auto simp: spaced_lit isSpace_def)
  from 3 obtain w2 where a3: "spaces w2" "s2 = w2 @ ''t:'' @ s3"
    by (auto simp: spaced_lit isSpace_def)
  have "\<exists>s4. wordRun (skipSpace s3) = Some (x, s4) \<and> lit ''}'' (skipSpace s4) = Some s5"
    using 4 5 by blast
  then obtain w3 w4 where a4: "spaces w3" "spaces w4" "x \<noteq> []" "\<forall>c \<in> set x. isWord c"
    "s3 = w3 @ x @ w4 @ ''}'' @ s5"
    by (subst (asm) spaced_word)
      (auto simp: isSpace_def isWord_def isAlnum_def isAlpha_def isUpper_def isLower_def isDigit_def)
  from 6 obtain w5 where a6: "spaces w5" "s5 = w5 @ ''='' @ s6"
    by (auto simp: spaced_lit isSpace_def)
  from 7 obtain w6 where a7: "spaces w6" "s6 = w6 @ ''useTranslation'' @ s7"
    by (auto simp: spaced_lit isSpace_def)
  from 8 obtain t' where a8: "argsToken ns t'" "s7 = t' @ r"
    by (auto simp: callArgs_iff)
  have "declToken x ns (''const'' @ w1 @ ''{'' @ w2 @ ''t:'' @ w3 @ x @ w4 @ ''}'' @ w5 @ ''='' @ w6 @
         ''useTranslation'' @ t')"
    using a2(1) a3(1) a4(1-4) a6(1) a7(1) a8(1) by (rule declTokenI)
  moreover have "s = (''const'' @ w1 @ ''{'' @ w2 @ ''t:'' @ w3 @ x @ w4 @ ''}'' @ w5 @ ''='' @ w6 @
         ''useTranslation'' @ t') @ r"
    unfolding a1 a2(2) a3(2) a4(5) a6(2) a7(2) a8(2) by simp
  ultimately show ?R by blast
next
  assume ?R
  then obtain t where dt: "declToken x ns t" and st: "s = t @ r"
    by blast
  from dt obtain w1 w2 w3 w4 w5 w6 t' where
    t: "t = ''const'' @ w1 @ ''{'' @ w2 @ ''t:'' @ w3 @ x @ w4 @ ''}'' @ w5 @ ''='' @ w6 @
         ''useTranslation'' @ t'"
    and w: "spaces w1" "spaces w2" "spaces w3" "spaces w4"
      "spaces w5" "spaces w6" "x \<noteq> []" "\<forall>c \<in> set x. isWord c" "argsToken ns t'"
    by (rule declTokenE)
  have s: "s = (''const'' @ w1 @ ''{'' @ w2 @ ''t:'' @ w3 @ x @ w4 @ ''}'' @ w5 @ ''='' @ w6 @
         ''useTranslation'' @ t') @ r"
    using st t by simp
  define s7 where "s7 = t' @ r"
  define s6 where "s6 = w6 @ ''useTranslation'' @ s7"
  define s5 where "s5 = w5 @ ''='' @ s6"
  define s3 where "s3 = w3 @ x @ w4 @ ''}'' @ s5"
  define s2 where "s2 = w2 @ ''t:'' @ s3"
  define s1 where "s1 = w1 @ ''{'' @ s2"
  have 1: "lit ''const'' s = Some s1"
    unfolding lit_iff s s1_def s2_def s3_def s5_def s6_def s7_def by simp
  have 2: "lit ''{'' (skipSpace s1) = Some s2"
    using w(1) by (auto simp: spaced_lit isSpace_def s1_def)
  have 3: "lit ''t:'' (skipSpace s2) = Some s3"
    using w(2) by (auto simp: spaced_lit isSpace_def s2_def)
  have "\<exists>s4. wordRun (skipSpace s3) = Some (x, s4) \<and> lit ''}'' (skipSpace s4) = Some s5"
    by (subst spaced_word)
      (use w in \<open>auto simp: s3_def isSpace_def isWord_def isAlnum_def isAlpha_def isUpper_def
         isLower_def isDigit_def\<close>)
  then obtain s4 where 4: "wordRun (skipSpace s3) = Some (x, s4)" and 5: "lit ''}'' (skipSpace s4) = Some s5"
    by blast
  have 6: "lit ''='' (skipSpace s5) = Some s6"
    using w(5) by (auto simp: spaced_lit isSpace_def s5_def)
  have 7: "lit ''useTranslation'' (skipSpace s6) = Some s7"
    using w(6) by (auto simp: spaced_lit isSpace_def s6_def)
  have 8: "callArgs s7 = Some (ns, r)"
    using w(9) by (auto simp: callArgs_iff s7_def)
  show ?L
    unfolding matchDeclAt_def using 1 2 3 4 5 6 7 8 by simp
qed

lemma matchCallAt_iff:
  "matchCallAt pw s = Some (a, k, r) \<longleftrightarrow> \<not> pw \<and> (\<exists>t. callToken a k t \<and> s = t @ r)"
  (is "?L \<longleftrightarrow> ?R")
proof
  assume ?L
  then obtain c s' where s: "s = CHR ''t'' # c # s'" and c: "\<not> pw" "isAlpha c"
    and a: "a = CHR ''t'' # c # takeWhile isAlnum s'"
    and 1: "callArgs (dropWhile isAlnum s') = Some (k, r)"
    by (auto simp: matchCallAt_def bind_eq_Some_conv split: list.splits if_splits)
  from 1 obtain t' where t: "argsToken k t'" "dropWhile isAlnum s' = t' @ r"
    by (auto simp: callArgs_iff)
  have "\<forall>d \<in> set (takeWhile isAlnum s'). isAlnum d"
    using set_takeWhileD by fastforce
  then have "callToken a k (a @ t')"
    unfolding callToken_def using a c(2) t(1) by blast
  moreover have "s = (a @ t') @ r"
    unfolding s a using t(2) by (metis append_Cons append_assoc takeWhile_dropWhile_id)
  ultimately show ?R using c(1) by blast
next
  assume ?R
  then obtain c ident t' where pw: "\<not> pw" and a: "a = CHR ''t'' # c # ident" "isAlpha c"
      "\<forall>d \<in> set ident. isAlnum d" and t: "argsToken k t'" and s: "s = (a @ t') @ r"
    unfolding callToken_def by blast
  have "t' \<noteq> [] \<and> \<not> isAlnum (hd t')"
  proof -
    from t obtain w1 u where w1: "\<forall>c \<in> set w1. isSpace c" and t': "t' = w1 @ ''('' @ u"
      unfolding argsToken_def spaces_def by blast
    have "\<not> isAlnum c" if "isSpace c" for c
      using that by (auto simp: isSpace_def isAlnum_def isAlpha_def isUpper_def isLower_def isDigit_def)
    moreover have "\<not> isAlnum (CHR ''('')"
      by (simp add: isAlnum_def isAlpha_def isUpper_def isLower_def isDigit_def)
    ultimately show ?thesis
      using w1 unfolding t' by (cases w1) simp_all
  qed
  then have n: "t' @ r = [] \<or> \<not> isAlnum (hd (t' @ r))"
    by simp
  have "takeWhile isAlnum (ident @ t' @ r) = ident" "dropWhile isAlnum (ident @ t' @ r) = t' @ r"
    using a(3) n run_take [of ident isAlnum "t' @ r"] run_split [of isAlnum "ident @ t' @ r" "t' @ r"]
    by blast+
  moreover have "callArgs (t' @ r) = Some (k, r)"
    using t by (auto simp: callArgs_iff)
  ultimately show ?L
    using pw a(1,2) s by (simp add: matchCallAt_def)
qed

section \<open>What the scans find\<close>

lemma callToken_alias:
  assumes "callToken a k t"
  shows "2 \<le> length a" "hd a = CHR ''t''" "isAlpha (a ! 1)" "\<forall>d \<in> set (drop 2 a). isAlnum d"
  using assms unfolding callToken_def by auto

lemma argsToken_key:
  assumes "argsToken k t"
  shows "k \<noteq> []" "\<forall>c \<in> set k. \<not> isQuote c"
  using assms unfolding argsToken_def by auto

lemma callToken_key:
  assumes "callToken a k t"
  shows "k \<noteq> []" "\<forall>c \<in> set k. \<not> isQuote c"
  using assms argsToken_key unfolding callToken_def by blast+

lemma declToken_parts:
  assumes "declToken x ns t"
  shows "x \<noteq> []" "\<forall>c \<in> set x. isWord c" "ns \<noteq> []" "\<forall>c \<in> set ns. \<not> isQuote c"
  using assms argsToken_key by (auto elim!: declTokenE)

lemma findAllCalls_tokens:
  "(a, k) \<in> set (findAllCalls pw s) \<Longrightarrow> \<exists>t. callToken a k t"
proof (induction pw s rule: findAllCalls.induct)
  case (1 prevWord)
  then show ?case by simp
next
  case (2 prevWord c r)
  show ?case
  proof (cases "matchCallAt prevWord (c # r)")
    case None
    with 2 show ?thesis by simp
  next
    case (Some m)
    obtain a' k' rest where m: "m = (a', k', rest)"
      by (cases m)
    show ?thesis
    proof (cases "(a, k) = (a', k')")
      case True
      with Some m show ?thesis
        using matchCallAt_iff [of prevWord "c # r" a k rest] by auto
    next
      case False
      with 2 Some m show ?thesis by auto
    qed
  qed
qed

lemma findAllDecls_tokens:
  "(x, ns) \<in> set (findAllDecls s) \<Longrightarrow> \<exists>t. declToken x ns t"
proof (induction s rule: findAllDecls.induct)
  case 1
  then show ?case by simp
next
  case (2 c r)
  show ?case
  proof (cases "matchDeclAt (c # r)")
    case None
    with 2 show ?thesis by simp
  next
    case (Some m)
    obtain x' ns' rest where m: "m = (x', ns', rest)"
      by (cases m)
    show ?thesis
    proof (cases "(x, ns) = (x', ns')")
      case True
      with Some m show ?thesis
        using matchDeclAt_iff [of "c # r" x ns rest] by auto
    next
      case False
      with 2 Some m show ?thesis by auto
    qed
  qed
qed

lemma fold_snoc_map: "fold (\<lambda>x acc. acc @ [g x]) xs acc0 = acc0 @ map g xs"
  by (induction xs arbitrary: acc0) simp_all

lemma parseFileWithMapping_map:
  "ReadFile sys p = Some c \<Longrightarrow>
   parseFileWithMapping sys p gm =
     Inr (map (\<lambda>(a, k). \<lparr>Key = k, Namespace = namespaceFor gm a, File = p\<rparr>) (findAllCalls False c))"
proof -
  have "(\<lambda>(tVariable, key) keys. keys @ [\<lparr>Key = key, Namespace = namespaceFor gm tVariable, File = p\<rparr>])
      = (\<lambda>x acc. acc @ [(\<lambda>(a, k). \<lparr>Key = k, Namespace = namespaceFor gm a, File = p\<rparr>) x])"
    by (simp add: fun_eq_iff split: prod.splits)
  then show "ReadFile sys p = Some c \<Longrightarrow> ?thesis"
    by (simp add: parseFileWithMapping_def fold_snoc_map)
qed

section \<open>The scans find the leftmost occurrences\<close>

lemma callToken_nonempty: "callToken a k t \<Longrightarrow> t \<noteq> []"
  unfolding callToken_def by auto

lemma declToken_nonempty: "declToken x ns t \<Longrightarrow> t \<noteq> []"
  by (auto elim!: declTokenE)

lemma leftmostCalls_findAllCalls: "leftmostCalls pw s (findAllCalls pw s)"
proof (induction pw s rule: findAllCalls.induct)
  case (1 prevWord)
  show ?case by (simp add: leftmostCalls_end)
next
  case (2 prevWord c r)
  show ?case
  proof (cases "matchCallAt prevWord (c # r)")
    case None
    have "prevWord \<or> (\<forall>a k t r'. callToken a k t \<longrightarrow> c # r \<noteq> t @ r')"
      using None matchCallAt_iff [of prevWord "c # r"] by (metis option.distinct(1))
    then show ?thesis
      using "2.IH"(1) [OF None] None by (simp add: leftmostCalls_skip)
  next
    case (Some m)
    obtain a k rest where m: "m = (a, k, rest)"
      by (cases m)
    from Some m obtain t where t: "\<not> prevWord" "callToken a k t" "c # r = t @ rest"
      using matchCallAt_iff [of prevWord "c # r" a k rest] by auto
    have "leftmostCalls False rest (findAllCalls False rest)"
      using "2.IH"(2) Some m by simp
    then have "leftmostCalls prevWord (t @ rest) ((a, k) # findAllCalls False rest)"
      using t(1,2) by (rule leftmostCalls_match [rotated 2])
    then have "leftmostCalls prevWord (c # r) ((a, k) # findAllCalls False rest)"
      unfolding t(3) .
    then show ?thesis
      using Some m by simp
  qed
qed

lemma leftmostCalls_unique: "leftmostCalls pw s ms \<Longrightarrow> ms = findAllCalls pw s"
proof (induction rule: leftmostCalls.induct)
  case (leftmostCalls_end prevWord)
  show ?case by simp
next
  case (leftmostCalls_match prevWord a k t r ms)
  have m: "matchCallAt prevWord (t @ r) = Some (a, k, r)"
    using leftmostCalls_match(1,2) matchCallAt_iff by blast
  obtain c r' where "t @ r = c # r'"
    using callToken_nonempty [OF leftmostCalls_match(2)] by (cases t) auto
  then show ?case
    using m leftmostCalls_match.IH by simp
next
  case (leftmostCalls_skip prevWord c r ms)
  have "matchCallAt prevWord (c # r) = None"
  proof (cases "matchCallAt prevWord (c # r)")
    case (Some m)
    obtain a k rest where "m = (a, k, rest)"
      by (cases m)
    with Some leftmostCalls_skip(1) show ?thesis
      using matchCallAt_iff [of prevWord "c # r" a k rest] by auto
  qed simp
  then show ?case
    using leftmostCalls_skip.IH by simp
qed

lemma leftmostDecls_findAllDecls: "leftmostDecls s (findAllDecls s)"
proof (induction s rule: findAllDecls.induct)
  case 1
  show ?case by (simp add: leftmostDecls_end)
next
  case (2 c r)
  show ?case
  proof (cases "matchDeclAt (c # r)")
    case None
    have "\<forall>x ns t r'. declToken x ns t \<longrightarrow> c # r \<noteq> t @ r'"
      using None matchDeclAt_iff [of "c # r"] by (metis option.distinct(1))
    then show ?thesis
      using "2.IH"(1) [OF None] None by (simp add: leftmostDecls_skip)
  next
    case (Some m)
    obtain x ns rest where m: "m = (x, ns, rest)"
      by (cases m)
    from Some m obtain t where t: "declToken x ns t" "c # r = t @ rest"
      using matchDeclAt_iff [of "c # r" x ns rest] by auto
    have "leftmostDecls rest (findAllDecls rest)"
      using "2.IH"(2) Some m by simp
    with t(1) have "leftmostDecls (t @ rest) ((x, ns) # findAllDecls rest)"
      by (rule leftmostDecls_match)
    then have "leftmostDecls (c # r) ((x, ns) # findAllDecls rest)"
      unfolding t(2) .
    then show ?thesis
      using Some m by simp
  qed
qed

lemma leftmostDecls_unique: "leftmostDecls s ms \<Longrightarrow> ms = findAllDecls s"
proof (induction rule: leftmostDecls.induct)
  case leftmostDecls_end
  show ?case by simp
next
  case (leftmostDecls_match x ns t r ms)
  have m: "matchDeclAt (t @ r) = Some (x, ns, r)"
    using leftmostDecls_match(1) matchDeclAt_iff by blast
  obtain c r' where "t @ r = c # r'"
    using declToken_nonempty [OF leftmostDecls_match(1)] by (cases t) auto
  then show ?case
    using m leftmostDecls_match.IH by simp
next
  case (leftmostDecls_skip c r ms)
  have "matchDeclAt (c # r) = None"
  proof (cases "matchDeclAt (c # r)")
    case (Some m)
    obtain x ns rest where "m = (x, ns, rest)"
      by (cases m)
    with Some leftmostDecls_skip(1) show ?thesis
      using matchDeclAt_iff [of "c # r" x ns rest] by auto
  qed simp
  then show ?case
    using leftmostDecls_skip.IH by simp
qed

lemma namespaceFor_spec:
  "strings_HasPrefix tVariable ''t'' \<Longrightarrow> namespaceFor globalMapping tVariable = spec_namespace globalMapping tVariable"
proof -
  assume "strings_HasPrefix tVariable ''t''"
  then obtain r where a: "tVariable = CHR ''t'' # r"
    by (cases "tVariable") (auto simp: strings_HasPrefix_def)
  show ?thesis
    unfolding a namespaceFor_def spec_namespace_def
    by (cases r) (auto simp: strings_HasPrefix_def split: option.splits)
qed

lemma argsTokenI:
  assumes "spaces w1" "spaces w2" "spaces w3" "isQuote q1" "isQuote q2" "k \<noteq> []"
    "\<forall>c \<in> set k. \<not> isQuote c"
  shows "argsToken k (w1 @ ''('' @ w2 @ [q1] @ k @ [q2] @ w3 @ '')'')"
  unfolding argsToken_def
  apply (rule exI [of _ w1], rule exI [of _ w2], rule exI [of _ q1], rule exI [of _ q2])
  apply (rule exI [of _ w3])
  using assms by simp

lemma spaces_simps [simp]: "spaces []" "spaces '' ''"
  by (simp_all add: spaces_def isSpace_def)

lemma decl_form:
  assumes "x \<noteq> []" "\<forall>c \<in> set x. isWord c" "ns \<noteq> []" "\<forall>c \<in> set ns. \<not> isQuote c"
    "isQuote q1" "isQuote q2"
  shows "declToken x ns (''const { t: '' @ x @ '' } = useTranslation('' @ [q1] @ ns @ [q2] @ '')'')"
proof -
  have "argsToken ns ([] @ ''('' @ [] @ [q1] @ ns @ [q2] @ [] @ '')'')"
    using assms by (intro argsTokenI) simp_all
  then have "declToken x ns (''const'' @ '' '' @ ''{'' @ '' '' @ ''t:'' @ '' '' @ x @ '' '' @ ''}'' @
      '' '' @ ''='' @ '' '' @ ''useTranslation'' @ ([] @ ''('' @ [] @ [q1] @ ns @ [q2] @ [] @ '')''))"
    using assms(1,2) by (intro declTokenI) simp_all
  then show ?thesis
    by simp
qed

lemma call_form:
  assumes "isAlpha c" "\<forall>d \<in> set ident. isAlnum d" "k \<noteq> []" "\<forall>c \<in> set k. \<not> isQuote c"
    "isQuote q1" "isQuote q2"
  shows "callToken (CHR ''t'' # c # ident) k
           ((CHR ''t'' # c # ident) @ ''('' @ [q1] @ k @ [q2] @ '')'')"
proof -
  have "argsToken k ([] @ ''('' @ [] @ [q1] @ k @ [q2] @ [] @ '')'')"
    using assms by (intro argsTokenI) simp_all
  then show ?thesis
    unfolding callToken_def using assms(1,2) by auto
qed

lemma findAllDecls_single: "declToken x ns t \<Longrightarrow> findAllDecls t = [(x, ns)]"
proof -
  assume "declToken x ns t"
  then have "leftmostDecls (t @ []) [(x, ns)]"
    by (intro leftmostDecls_match leftmostDecls_end)
  then show ?thesis
    using leftmostDecls_unique by fastforce
qed

lemma findAllCalls_single: "callToken a k t \<Longrightarrow> findAllCalls False t = [(a, k)]"
proof -
  assume "callToken a k t"
  then have "leftmostCalls False (t @ []) [(a, k)]"
    by (intro leftmostCalls_match leftmostCalls_end) simp_all
  then show ?thesis
    using leftmostCalls_unique by fastforce
qed

subsection \<open>Go maps as association lists\<close>

lemma map_of_fold_update:
  "map_of (fold (\<lambda>(k, v) m. AList.update k v m) xs m) = map_of m ++ map_of (rev xs)"
proof (induction xs arbitrary: m)
  case Nil
  show ?case by simp
next
  case (Cons x xs)
  obtain k v where x: "x = (k, v)"
    by (cases x)
  have "map_of (fold (\<lambda>(k, v) m. AList.update k v m) (x # xs) m)
      = map_of (fold (\<lambda>(k, v) m. AList.update k v m) xs (AList.update k v m))"
    by (simp add: x)
  also have "\<dots> = map_of (AList.update k v m) ++ map_of (rev xs)"
    by (rule Cons.IH)
  also have "\<dots> = (map_of m)(k \<mapsto> v) ++ map_of (rev xs)"
    by (simp only: update_conv')
  also have "\<dots> = map_of m ++ map_of (rev (x # xs))"
    by (simp add: x fun_eq_iff map_add_def split: option.splits)
  finally show ?case .
qed

lemma distinct_fold_update:
  "distinct (map fst m) \<Longrightarrow> distinct (map fst (fold (\<lambda>(k, v) m. AList.update k v m) xs m))"
  by (induction xs arbitrary: m) (auto simp: distinct_update)

lemma set_update_subset: "set (AList.update k v al) \<subseteq> insert (k, v) (set al)"
  by (induction al) auto

lemma set_fold_update:
  "set (fold (\<lambda>(k, v) m. AList.update k v m) xs m) \<subseteq> set xs \<union> set m"
proof (induction xs arbitrary: m)
  case Nil
  show ?case by simp
next
  case (Cons x xs)
  obtain k v where x: "x = (k, v)"
    by (cases x)
  show ?case
    using Cons.IH [of "AList.update k v m"] set_update_subset [of k v m] x by auto
qed

lemma map_of_permuted:
  assumes "distinct (map fst xs)" "mset ys = mset xs"
  shows "map_of (rev ys) = map_of xs"
proof -
  have "mset (map fst (rev ys)) = mset (map fst xs)"
    using assms(2) by simp
  then have "distinct (map fst (rev ys))"
    using assms(1) by (metis mset_eq_imp_distinct_iff)
  moreover have "set (rev ys) = set xs"
    using assms(2) by (metis mset_eq_setD set_rev)
  ultimately show ?thesis
    using assms(1) by (simp add: map_of_inject_set)
qed

lemma range_update_map_of:
  assumes "distinct (map fst m)" "mset ys = mset m"
  shows "map_of (fold (\<lambda>(k, v) g. AList.update k v g) ys g) = map_of g ++ map_of m"
  by (simp add: map_of_fold_update map_of_permuted [OF assms])

subsection \<open>The alias map\<close>

lemma extractUseTranslationDeclarations_map:
  "extractUseTranslationDeclarations sys p =
     (case ReadFile sys p of
        None \<Rightarrow> Inl (ReadError p)
      | Some c \<Rightarrow> Inr (fold (\<lambda>(k, v) m. AList.update k v m) (findAllDecls c) []))"
  by (simp add: extractUseTranslationDeclarations_def)

lemma globalTranslationMap_step:
  assumes "permuting ords"
  shows "map_of (case extractUseTranslationDeclarations sys p of
                   Inl e \<Rightarrow> g
                 | Inr fileMap \<Rightarrow>
                     fold (\<lambda>(tVar, namespace) globalMap. AList.update tVar namespace globalMap)
                       (rangeFileMap ords p fileMap) g)
         = map_of g ++ map_of (rev (declsOf sys p))"
proof (cases "ReadFile sys p")
  case None
  then show ?thesis
    by (simp add: extractUseTranslationDeclarations_map declsOf_def)
next
  case (Some c)
  let ?fm = "fold (\<lambda>(k, v) m. AList.update k v m) (findAllDecls c) []"
  have d: "distinct (map fst ?fm)"
    by (rule distinct_fold_update) simp
  have p: "mset (rangeFileMap ords p ?fm) = mset ?fm"
    using assms by (simp add: permuting_def)
  have "map_of ?fm = map_of (rev (findAllDecls c))"
    by (simp add: map_of_fold_update)
  then show ?thesis
    using Some range_update_map_of [OF d p, of g]
    by (simp add: extractUseTranslationDeclarations_map declsOf_def)
qed

lemma globalTranslationMap_from:
  assumes "permuting ords"
  shows "map_of (fold (\<lambda>path globalMap.
             case extractUseTranslationDeclarations sys path of
               Inl e \<Rightarrow> globalMap
             | Inr fileMap \<Rightarrow>
                 fold (\<lambda>(tVar, namespace) globalMap. AList.update tVar namespace globalMap)
                   (rangeFileMap ords path fileMap) globalMap) paths g)
         = map_of g ++ map_of (rev (concat (map (declsOf sys) paths)))"
proof (induction paths arbitrary: g)
  case Nil
  show ?case by simp
next
  case (Cons p paths)
  show ?case
    by (simp add: Cons.IH globalTranslationMap_step [OF assms])
qed

lemma globalTranslationMap_map_of:
  assumes "permuting ords"
  shows "map_of (globalTranslationMap sys ords paths) = map_of (rev (concat (map (declsOf sys) paths)))"
  unfolding globalTranslationMap_def globalTranslationMap_from [OF assms] by simp

lemma declsIn_iff: "declsIn sys path ms \<longleftrightarrow> ms = declsOf sys path"
  using leftmostDecls_unique leftmostDecls_findAllDecls
  by (auto simp: declsIn_def declsOf_def split: option.splits)

lemma list_all2_declsIn: "list_all2 (declsIn sys) paths mss \<longleftrightarrow> mss = map (declsOf sys) paths"
  by (induction paths arbitrary: mss) (auto simp: declsIn_iff list_all2_Cons1)

subsection \<open>Captured strings hold no quote\<close>

lemma isQuote_code: "isQuote c \<longleftrightarrow> of_char c = (39::nat) \<or> of_char c = (34::nat)"
proof -
  have "c = sq \<longleftrightarrow> of_char c = (of_char sq :: nat)" "c = dq \<longleftrightarrow> of_char c = (of_char dq :: nat)"
    by (metis of_char_eq_iff)+
  then show ?thesis
    by (simp add: isQuote_def)
qed

lemma toLowerChar_not_quote: "isAlnum c \<Longrightarrow> \<not> isQuote (toLowerChar c)"
proof -
  assume a: "isAlnum c"
  show ?thesis
  proof (cases "isUpper c")
    case True
    then have r: "65 \<le> (of_char c :: nat)" "(of_char c :: nat) \<le> 90"
      by (simp_all add: isUpper_def less_eq_char_def)
    then have "(of_char (char_of (of_char c + 32 :: nat)) :: nat) = of_char c + 32"
      by simp
    with r show ?thesis
      using True by (simp add: toLowerChar_def isQuote_code)
  next
    case False
    have "\<not> isQuote c"
      using a
      by (auto simp: isQuote_code isAlnum_def isAlpha_def isUpper_def isLower_def isDigit_def
          less_eq_char_def)
    with False show ?thesis
      by (simp add: toLowerChar_def)
  qed
qed

lemma namespaceFor_clean:
  assumes "callToken a k t"
    and "\<forall>(x, ns) \<in> set gm. ns \<noteq> [] \<and> (\<forall>c \<in> set ns. \<not> isQuote c)"
  shows "namespaceFor gm a \<noteq> [] \<and> (\<forall>c \<in> set (namespaceFor gm a). \<not> isQuote c)"
proof (cases "map_of gm a")
  case (Some ns)
  then have "(a, ns) \<in> set gm"
    by (rule map_of_SomeD)
  with assms(2) Some show ?thesis
    by (auto simp: namespaceFor_def)
next
  case None
  from assms(1) have l: "2 \<le> length a" "hd a = CHR ''t''" "isAlpha (a ! 1)"
    "\<forall>d \<in> set (drop 2 a). isAlnum d"
    by (rule callToken_alias)+
  then obtain b r where a: "a = CHR ''t'' # b # r"
    by (cases a; cases "tl a") auto
  have "\<forall>d \<in> set (b # r). isAlnum d"
    using l(3,4) a by (auto simp: isAlnum_def)
  then have "\<forall>c \<in> set (strings_ToLower (b # r)). \<not> isQuote c"
    unfolding strings_ToLower_def using toLowerChar_not_quote by auto
  then show ?thesis
    using None a by (simp add: namespaceFor_def strings_HasPrefix_def strings_ToLower_def)
qed

lemma globalTranslationMap_entries:
  assumes "permuting ords" "(x, ns) \<in> set (globalTranslationMap sys ords paths)"
  shows "\<exists>p \<in> set paths. (x, ns) \<in> set (declsOf sys p)"
proof -
  have "(x, ns) \<in> set (fold (\<lambda>path globalMap.
             case extractUseTranslationDeclarations sys path of
               Inl e \<Rightarrow> globalMap
             | Inr fileMap \<Rightarrow>
                 fold (\<lambda>(tVar, namespace) globalMap. AList.update tVar namespace globalMap)
                   (rangeFileMap ords path fileMap) globalMap) paths g) \<Longrightarrow>
        (x, ns) \<in> set g \<or> (\<exists>p \<in> set paths. (x, ns) \<in> set (declsOf sys p))" for g
  proof (induction paths arbitrary: g)
    case Nil
    then show ?case by simp
  next
    case (Cons p paths)
    let ?g = "case extractUseTranslationDeclarations sys p of
               Inl e \<Rightarrow> g
             | Inr fileMap \<Rightarrow>
                 fold (\<lambda>(tVar, namespace) globalMap. AList.update tVar namespace globalMap)
                   (rangeFileMap ords p fileMap) g"
    have s: "set ?g \<subseteq> set g \<union> set (declsOf sys p)"
    proof (cases "ReadFile sys p")
      case None
      then show ?thesis
        by (simp add: extractUseTranslationDeclarations_map)
    next
      case (Some c)
      let ?fm = "fold (\<lambda>(k, v) m. AList.update k v m) (findAllDecls c) []"
      have "set (rangeFileMap ords p ?fm) = set ?fm"
        using assms(1) by (metis mset_eq_setD permuting_def)
      moreover have "set ?fm \<subseteq> set (findAllDecls c)"
        using set_fold_update [of "findAllDecls c" "[]"] by simp
      ultimately show ?thesis
        using Some set_fold_update [of "rangeFileMap ords p ?fm" g]
        by (auto simp: extractUseTranslationDeclarations_map declsOf_def)
    qed
    from Cons.prems have "(x, ns) \<in> set ?g \<or> (\<exists>p \<in> set paths. (x, ns) \<in> set (declsOf sys p))"
      using Cons.IH [of ?g] by simp
    with s show ?case
      by auto
  qed
  from this [of "[]"] assms(2) show ?thesis
    by (simp add: globalTranslationMap_def)
qed

lemma globalTranslationMap_clean:
  assumes "permuting ords" "(x, ns) \<in> set (globalTranslationMap sys ords paths)"
  shows "ns \<noteq> [] \<and> (\<forall>c \<in> set ns. \<not> isQuote c)"
proof -
  from globalTranslationMap_entries [OF assms] obtain p where "(x, ns) \<in> set (declsOf sys p)"
    by blast
  then obtain c where "(x, ns) \<in> set (findAllDecls c)"
    by (auto simp: declsOf_def split: option.splits)
  then obtain t where "declToken x ns t"
    using findAllDecls_tokens by blast
  then show ?thesis
    using declToken_parts(3,4) by blast
qed

lemma fold_parse_entries:
  "e \<in> set (fold (\<lambda>path keys.
                       case parseFileWithMapping sys path gm of
                         Inl e \<Rightarrow> keys
                       | Inr fileKeys \<Rightarrow> keys @ fileKeys) paths acc) \<Longrightarrow>
   e \<in> set acc \<or> (\<exists>p c a k. ReadFile sys p = Some c \<and> (a, k) \<in> set (findAllCalls False c) \<and>
      e = \<lparr>Key = k, Namespace = namespaceFor gm a, File = p\<rparr>)"
proof (induction paths arbitrary: acc)
  case Nil
  then show ?case by simp
next
  case (Cons p paths)
  show ?case
  proof (cases "ReadFile sys p")
    case None
    then have "parseFileWithMapping sys p gm = Inl (ReadError p)"
      by (simp add: parseFileWithMapping_def)
    with Cons show ?thesis by simp
  next
    case (Some c)
    note m = parseFileWithMapping_map [OF Some, of gm]
    from Cons.prems have "e \<in> set (acc @ map (\<lambda>(a, k). \<lparr>Key = k, Namespace = namespaceFor gm a, File = p\<rparr>)
        (findAllCalls False c)) \<or> (\<exists>p c a k. ReadFile sys p = Some c \<and> (a, k) \<in> set (findAllCalls False c) \<and>
      e = \<lparr>Key = k, Namespace = namespaceFor gm a, File = p\<rparr>)"
      using Cons.IH [of "acc @ map (\<lambda>(a, k). \<lparr>Key = k, Namespace = namespaceFor gm a, File = p\<rparr>)
        (findAllCalls False c)"] by (simp add: m)
    then show ?thesis
      using Some by auto
  qed
qed

subsection \<open>The merge loop\<close>

lemma map_of_mset_eq:
  assumes "distinct (map fst xs)" "mset ys = mset xs"
  shows "distinct (map fst ys)" "map_of ys = map_of xs"
proof -
  have "mset (map fst ys) = mset (map fst xs)"
    using assms(2) by simp
  then show d: "distinct (map fst ys)"
    using assms(1) by (metis mset_eq_imp_distinct_iff)
  have "set ys = set xs"
    using assms(2) by (rule mset_eq_setD)
  with d show "map_of ys = map_of xs"
    using assms(1) by (simp add: map_of_inject_set)
qed

lemma map_of_update: "map_of (AList.update k v m) = (map_of m)(k \<mapsto> v)"
  by (rule update_conv')

lemma map_of_mergeEntry:
  "map_of (mergeEntry (k, v) m) = mergePolicy (map_of m) [k \<mapsto> v]"
  by (rule ext) (simp add: mergeEntry_def mergePolicy_def map_of_update split: option.splits)

lemma distinct_mergeEntry: "distinct (map fst m) \<Longrightarrow> distinct (map fst (mergeEntry kv m))"
  by (cases kv) (simp add: mergeEntry_def distinct_update split: option.splits)

lemma distinct_fold_mergeEntry:
  "distinct (map fst m) \<Longrightarrow> distinct (map fst (fold mergeEntry ys m))"
  by (induction ys arbitrary: m) (simp_all add: distinct_mergeEntry)

lemma map_of_fold_mergeEntry:
  "distinct (map fst ys) \<Longrightarrow> map_of (fold mergeEntry ys m) = mergePolicy (map_of m) (map_of ys)"
proof (induction ys arbitrary: m)
  case Nil
  show ?case
    by (simp add: mergePolicy_def)
next
  case (Cons y ys)
  obtain k v where y: "y = (k, v)"
    by (cases y)
  from Cons.prems y have n: "map_of ys k = None" and d: "distinct (map fst ys)"
    by (simp_all add: map_of_eq_None_iff)
  have "map_of (fold mergeEntry (y # ys) m) = map_of (fold mergeEntry ys (mergeEntry (k, v) m))"
    by (simp add: y)
  also have "\<dots> = mergePolicy (map_of (mergeEntry (k, v) m)) (map_of ys)"
    by (rule Cons.IH [OF d])
  also have "\<dots> = mergePolicy (mergePolicy (map_of m) [k \<mapsto> v]) (map_of ys)"
    by (simp only: map_of_mergeEntry)
  also have "\<dots> = mergePolicy (map_of m) (map_of (y # ys))"
    using n by (auto simp: y mergePolicy_def fun_eq_iff split: option.splits)
  finally show ?case .
qed

lemma merge_data:
  assumes "permuting ords"
  shows "map_of (fold mergeEntry
                   (rangeData ords i (fold (\<lambda>(k, v) data. AList.update k v data) members [])) merged)
         = mergePolicy (map_of merged) (dictOf members)"
proof -
  let ?data = "fold (\<lambda>(k, v) data. AList.update k v data) members []"
  have d: "distinct (map fst ?data)"
    by (rule distinct_fold_update) simp
  have p: "mset (rangeData ords i ?data) = mset ?data"
    using assms by (simp add: permuting_def)
  have "map_of ?data = dictOf members"
    by (simp add: map_of_fold_update dictOf_def)
  then show ?thesis
    using map_of_mset_eq [OF d p] by (simp add: map_of_fold_mergeEntry)
qed

lemma mergeLoop_result:
  assumes "permuting ords" "map (parsed sys) files = map Some mems" "distinct (map fst merged)"
  shows "\<exists>m. snd (mergeLoop sys ords i files merged) = Inr m \<and> distinct (map fst m) \<and>
           map_of m = foldl mergePolicy (map_of merged) (map dictOf mems) \<and>
           fst (mergeLoop sys ords i files merged) = map EvRead files"
  using assms(2,3)
proof (induction files arbitrary: mems i merged)
  case Nil
  then show ?case by simp
next
  case (Cons f files)
  from Cons.prems(1) obtain ms mems' where mems: "mems = ms # mems'"
    and pf: "parsed sys f = Some ms" and r: "map (parsed sys) files = map Some mems'"
    by (cases mems) auto
  from pf obtain content where c: "ReadFile sys f = Some content" "Unmarshal sys content = Some ms"
    by (auto simp: parsed_def bind_eq_Some_conv)
  let ?merged = "fold mergeEntry
      (rangeData ords i (fold (\<lambda>(k, v) data. AList.update k v data) ms [])) merged"
  have d: "distinct (map fst ?merged)"
    using Cons.prems(2) by (rule distinct_fold_mergeEntry)
  from Cons.IH [OF r d, of "Suc i"] obtain m where
    m: "snd (mergeLoop sys ords (Suc i) files ?merged) = Inr m" "distinct (map fst m)"
      "map_of m = foldl mergePolicy (map_of ?merged) (map dictOf mems')"
      "fst (mergeLoop sys ords (Suc i) files ?merged) = map EvRead files"
    by blast
  have "snd (mergeLoop sys ords i (f # files) merged) = Inr m"
    "fst (mergeLoop sys ords i (f # files) merged) = map EvRead (f # files)"
    using c m(1,4) by (auto simp: Let_def split: prod.splits)
  moreover have "map_of m = foldl mergePolicy (map_of merged) (map dictOf mems)"
    using m(3) by (simp add: mems merge_data [OF assms(1)])
  ultimately show ?case
    using m(2) by blast
qed

lemma foldl_mergePolicy:
  "foldl mergePolicy m ds key =
     (case m key of
        None \<Rightarrow> firstNonEmpty ds key
      | Some e \<Rightarrow> if e \<noteq> [] then Some e
                  else (case firstNonEmpty ds key of None \<Rightarrow> Some [] | Some v \<Rightarrow> Some v))"
proof (induction ds arbitrary: m)
  case Nil
  show ?case by (simp split: option.splits)
next
  case (Cons d ds)
  have "foldl mergePolicy m (d # ds) key = foldl mergePolicy (mergePolicy m d) ds key"
    by simp
  also have "\<dots> =
     (case mergePolicy m d key of
        None \<Rightarrow> firstNonEmpty ds key
      | Some e \<Rightarrow> if e \<noteq> [] then Some e
                  else (case firstNonEmpty ds key of None \<Rightarrow> Some [] | Some v \<Rightarrow> Some v))"
    by (rule Cons.IH)
  also have "\<dots> =
     (case m key of
        None \<Rightarrow> firstNonEmpty (d # ds) key
      | Some e \<Rightarrow> if e \<noteq> [] then Some e
                  else (case firstNonEmpty (d # ds) key of None \<Rightarrow> Some [] | Some v \<Rightarrow> Some v))"
    by (simp add: mergePolicy_def split: option.splits)
  finally show ?case .
qed

lemma mergePolicy_empty: "mergePolicy Map.empty d = d"
  by (rule ext) (simp add: mergePolicy_def split: option.splits)

section \<open>Claims\<close>

text \<open>
  C9. Every alias the call pattern matches has at least two characters, the second a
  letter. So a bare call \<^verbatim>\<open>t('key')\<close> gives no entry, and the branch of
  \<^verbatim>\<open>parseFileWithMapping\<close> that assigns the namespace \<^verbatim>\<open>common\<close> is never taken: the
  function computes what it would compute without that branch.
\<close>

theorem matched_alias_has_letter_after_t:
  assumes "ReadFile sys filePath = Some contentStr"
  shows "(\<forall>(a, k) \<in> set (findAllCalls False contentStr).
            2 \<le> length a \<and> hd a = CHR ''t'' \<and> isAlpha (a ! 1) \<and> a \<noteq> ''t'') \<and>
         findAllCalls False (''t('' @ [sq] @ ''key'' @ [sq] @ '')'') = [] \<and>
         parseFileWithMapping sys filePath globalMapping =
           Inr (map (\<lambda>(a, k). \<lparr>Key = k,
                       Namespace = (case map_of globalMapping a of
                                      Some ns \<Rightarrow> ns
                                    | None \<Rightarrow> strings_ToLower (drop 1 a)),
                       File = filePath\<rparr>)
                  (findAllCalls False contentStr))"
proof (intro conjI)
  show "\<forall>(a, k) \<in> set (findAllCalls False contentStr).
            2 \<le> length a \<and> hd a = CHR ''t'' \<and> isAlpha (a ! 1) \<and> a \<noteq> ''t''"
    using findAllCalls_tokens callToken_alias by fastforce
  show "findAllCalls False (''t('' @ [sq] @ ''key'' @ [sq] @ '')'') = []"
    by code_simp
  have "namespaceFor globalMapping a =
      (case map_of globalMapping a of Some ns \<Rightarrow> ns | None \<Rightarrow> strings_ToLower (drop 1 a))"
    if "(a, k) \<in> set (findAllCalls False contentStr)" for a k
  proof -
    from that obtain t where "callToken a k t"
      using findAllCalls_tokens by blast
    then have "2 \<le> length a" "hd a = CHR ''t''"
      by (rule callToken_alias)+
    then have "strings_HasPrefix a ''t'' \<and> 1 < length a"
      by (cases a) (auto simp: strings_HasPrefix_def)
    then show ?thesis
      by (simp add: namespaceFor_def)
  qed
  then show "parseFileWithMapping sys filePath globalMapping =
           Inr (map (\<lambda>(a, k). \<lparr>Key = k,
                       Namespace = (case map_of globalMapping a of
                                      Some ns \<Rightarrow> ns
                                    | None \<Rightarrow> strings_ToLower (drop 1 a)),
                       File = filePath\<rparr>)
                  (findAllCalls False contentStr))"
    unfolding parseFileWithMapping_map [OF assms] by auto
qed

theorem matched_alias_has_letter_after_t_witness:
  "ReadFile (exampleSys [(''a.tsx'', ''tAgent('expire') t('key')'')] []) ''a.tsx''
     = Some ''tAgent('expire') t('key')'' \<and>
   findAllCalls False ''tAgent('expire') t('key')'' = [(''tAgent'', ''expire'')] \<and>
   2 \<le> length ''tAgent'' \<and> isAlpha (''tAgent'' ! 1) \<and>
   parseFileWithMapping (exampleSys [(''a.tsx'', ''tAgent('expire') t('key')'')] []) ''a.tsx'' []
     = Inr [\<lparr>Key = ''expire'', Namespace = ''agent'', File = ''a.tsx''\<rparr>]"
proof -
  have r: "ReadFile (exampleSys [(''a.tsx'', ''tAgent('expire') t('key')'')] []) ''a.tsx''
     = Some ''tAgent('expire') t('key')''"
    by (simp add: exampleSys_def)
  have f: "findAllCalls False ''tAgent('expire') t('key')'' = [(''tAgent'', ''expire'')]"
    by code_simp
  have l: "strings_ToLower ''Agent'' = ''agent''"
    by code_simp
  show ?thesis
    using matched_alias_has_letter_after_t [OF r, of "[]"] r l unfolding f by simp
qed

text \<open>
  C1. The namespace of every entry is found from the alias of its call and the alias
  map alone, by the specification's rule: the map's namespace when the alias is a key of
  the map; otherwise the alias without its leading \<^verbatim>\<open>t\<close>, in lower case (\<^verbatim>\<open>tAgent\<close> gives
  \<^verbatim>\<open>agent\<close>); and \<^verbatim>\<open>common\<close> for the alias \<^verbatim>\<open>t\<close>.
\<close>

theorem namespace_resolution:
  assumes "ReadFile sys filePath = Some contentStr"
  shows "parseFileWithMapping sys filePath globalMapping =
           Inr (map (\<lambda>(tVariable, key).
                       \<lparr>Key = key, Namespace = spec_namespace globalMapping tVariable, File = filePath\<rparr>)
                  (findAllCalls False contentStr)) \<and>
         (\<forall>tVariable. strings_HasPrefix tVariable ''t'' \<longrightarrow>
            namespaceFor globalMapping tVariable = spec_namespace globalMapping tVariable) \<and>
         (\<forall>tVariable ns. map_of globalMapping tVariable = Some ns \<longrightarrow> namespaceFor globalMapping tVariable = ns) \<and>
         (map_of globalMapping ''tAgent'' = None \<longrightarrow> namespaceFor globalMapping ''tAgent'' = ''agent'') \<and>
         (map_of globalMapping ''t'' = None \<longrightarrow> namespaceFor globalMapping ''t'' = ''common'')"
proof (intro conjI allI impI)
  have "namespaceFor globalMapping a = spec_namespace globalMapping a"
    if "(a, k) \<in> set (findAllCalls False contentStr)" for a k
  proof -
    from that obtain t where "callToken a k t"
      using findAllCalls_tokens by blast
    then have "2 \<le> length a" "hd a = CHR ''t''"
      by (rule callToken_alias)+
    then have "strings_HasPrefix a ''t''"
      by (cases a) (auto simp: strings_HasPrefix_def)
    then show ?thesis
      by (rule namespaceFor_spec)
  qed
  then show "parseFileWithMapping sys filePath globalMapping =
           Inr (map (\<lambda>(tVariable, key).
                       \<lparr>Key = key, Namespace = spec_namespace globalMapping tVariable, File = filePath\<rparr>)
                  (findAllCalls False contentStr))"
    unfolding parseFileWithMapping_map [OF assms] by auto
next
  fix tVariable
  assume "strings_HasPrefix tVariable ''t''"
  then show "namespaceFor globalMapping tVariable = spec_namespace globalMapping tVariable"
    by (rule namespaceFor_spec)
next
  fix tVariable ns
  assume "map_of globalMapping tVariable = Some ns"
  then show "namespaceFor globalMapping tVariable = ns"
    by (simp add: namespaceFor_def)
next
  have "strings_ToLower ''Agent'' = ''agent''"
    by code_simp
  moreover assume "map_of globalMapping ''tAgent'' = None"
  ultimately show "namespaceFor globalMapping ''tAgent'' = ''agent''"
    by (simp add: namespaceFor_def strings_HasPrefix_def)
next
  assume "map_of globalMapping ''t'' = None"
  then show "namespaceFor globalMapping ''t'' = ''common''"
    by (simp add: namespaceFor_def strings_HasPrefix_def)
qed

theorem namespace_resolution_witness:
  "ReadFile (exampleSys [(''a.tsx'', ''tUser('title') tOther('msg')'')] []) ''a.tsx''
     = Some ''tUser('title') tOther('msg')'' \<and>
   parseFileWithMapping (exampleSys [(''a.tsx'', ''tUser('title') tOther('msg')'')] []) ''a.tsx''
       [(''tUser'', ''user'')]
     = Inr [\<lparr>Key = ''title'', Namespace = ''user'', File = ''a.tsx''\<rparr>,
            \<lparr>Key = ''msg'', Namespace = ''other'', File = ''a.tsx''\<rparr>] \<and>
   namespaceFor [(''tUser'', ''user'')] ''tAgent'' = ''agent'' \<and>
   namespaceFor [(''tUser'', ''user'')] ''t'' = ''common''"
proof -
  have r: "ReadFile (exampleSys [(''a.tsx'', ''tUser('title') tOther('msg')'')] []) ''a.tsx''
     = Some ''tUser('title') tOther('msg')''"
    by (simp add: exampleSys_def)
  have f: "findAllCalls False ''tUser('title') tOther('msg')''
      = [(''tUser'', ''title''), (''tOther'', ''msg'')]"
    by code_simp
  have l: "strings_ToLower ''Other'' = ''other''"
    by code_simp
  show ?thesis
    using namespace_resolution [OF r, of "[(''tUser'', ''user'')]"] r l
    unfolding f by (simp add: spec_namespace_def)
qed

text \<open>
  C2, as the claim states it, fails: an alias whose second character is a digit or an
  underscore is not matched, and gives no entry.
\<close>

theorem digit_or_underscore_alias_counterexample:
  "parseFileWithMapping (exampleSys [(''a.tsx'', ''t1('key') t_x('key')'')] []) ''a.tsx'' []
     = Inr []"
proof -
  have "findAllCalls False ''t1('key') t_x('key')'' = []"
    by code_simp
  then show ?thesis
    by (simp add: parseFileWithMapping_def exampleSys_def)
qed

text \<open>
  C2, amended. The matches are the successive leftmost, non-overlapping occurrences of:
  at a word boundary, \<^verbatim>\<open>t\<close>, an ASCII letter, any number of ASCII letters and digits,
  optional white space, \<^verbatim>\<open>(\<close>, optional white space, a quote, one or more characters
  that are not quotes, a quote, optional white space, \<^verbatim>\<open>)\<close>. The function gives one entry
  for each match, in order, with the key of the match. No text of the pattern has the
  alias \<^verbatim>\<open>t1\<close> or \<^verbatim>\<open>t_x\<close>.
\<close>

theorem call_pattern_matches:
  assumes "ReadFile sys filePath = Some contentStr"
  shows "\<exists>ms es. leftmostCalls False contentStr ms \<and>
           (\<forall>ms'. leftmostCalls False contentStr ms' \<longrightarrow> ms' = ms) \<and>
           parseFileWithMapping sys filePath globalMapping = Inr es \<and>
           length es = length ms \<and> map Key es = map snd ms \<and>
           (\<forall>e \<in> set es. File e = filePath) \<and>
           (\<forall>k t. \<not> callToken ''t1'' k t) \<and> (\<forall>k t. \<not> callToken ''t_x'' k t)"
proof -
  let ?ms = "findAllCalls False contentStr"
  let ?es = "map (\<lambda>(a, k). \<lparr>Key = k, Namespace = namespaceFor globalMapping a, File = filePath\<rparr>) ?ms"
  have 1: "leftmostCalls False contentStr ?ms"
    by (rule leftmostCalls_findAllCalls)
  have 2: "\<forall>ms'. leftmostCalls False contentStr ms' \<longrightarrow> ms' = ?ms"
    using leftmostCalls_unique by blast
  have 3: "parseFileWithMapping sys filePath globalMapping = Inr ?es"
    by (rule parseFileWithMapping_map [OF assms])
  have 4: "length ?es = length ?ms"
    by simp
  have 5: "map Key ?es = map snd ?ms"
    by (simp add: case_prod_beta)
  have 6: "\<forall>e \<in> set ?es. File e = filePath"
    by auto
  have "\<not> isAlpha (CHR ''1'')" "\<not> isAlpha (CHR ''_'')"
    by (simp_all add: isAlpha_def isUpper_def isLower_def)
  then have 7: "\<forall>k t. \<not> callToken ''t1'' k t" and 8: "\<forall>k t. \<not> callToken ''t_x'' k t"
    using callToken_alias(3) by fastforce+
  from 1 2 3 4 5 6 7 8 show ?thesis
    by blast
qed

theorem call_pattern_matches_witness:
  "ReadFile (exampleSys [(''a.tsx'', ''tAgent ( \"expire\" ) t1('key') xtB('k') tC('k2')'')] []) ''a.tsx''
     = Some ''tAgent ( \"expire\" ) t1('key') xtB('k') tC('k2')'' \<and>
   leftmostCalls False ''tAgent ( \"expire\" ) t1('key') xtB('k') tC('k2')''
     [(''tAgent'', ''expire''), (''tC'', ''k2'')] \<and>
   (\<exists>es. parseFileWithMapping
            (exampleSys [(''a.tsx'', ''tAgent ( \"expire\" ) t1('key') xtB('k') tC('k2')'')] [])
            ''a.tsx'' [] = Inr es \<and>
         map Key es = [''expire'', ''k2''])"
proof -
  let ?c = "''tAgent ( \"expire\" ) t1('key') xtB('k') tC('k2')''"
  have r: "ReadFile (exampleSys [(''a.tsx'', ?c)] []) ''a.tsx'' = Some ?c"
    by (simp add: exampleSys_def)
  have f: "findAllCalls False ?c = [(''tAgent'', ''expire''), (''tC'', ''k2'')]"
    by code_simp
  from call_pattern_matches [OF r, of "[]"] obtain ms es where
    1: "leftmostCalls False ?c ms"
    and 2: "parseFileWithMapping (exampleSys [(''a.tsx'', ?c)] []) ''a.tsx'' [] = Inr es"
    and 3: "map Key es = map snd ms"
    by blast
  have "ms = [(''tAgent'', ''expire''), (''tC'', ''k2'')]"
    using leftmostCalls_unique [OF 1] f by simp
  with 1 2 3 r show ?thesis
    by auto
qed

text \<open>
  C3, as the claim states it, fails twice. White space between \<^verbatim>\<open>t\<close> and the colon is
  not accepted. And a declaration that an earlier match of the scan runs into is not
  found: here the declaration of \<^verbatim>\<open>x\<close> starts inside the string literal of the match
  for \<^verbatim>\<open>a\<close>.
\<close>

theorem declaration_not_collected_counterexample:
  "map_of (globalTranslationMap
            (exampleSys [(''a.tsx'', ''const { t : x } = useTranslation('ns')'')] [])
            insertionOrder [''a.tsx'']) ''x'' = None \<and>
   declToken ''x'' '')'' ''const { t: x } = useTranslation(')')'' \<and>
   map_of (globalTranslationMap
            (exampleSys [(''a.tsx'',
               ''const{t:a}=useTranslation(\"'' @ ''const { t: x } = useTranslation(')')'')] [])
            insertionOrder [''a.tsx'']) ''x'' = None"
proof (intro conjI)
  have "findAllDecls ''const { t : x } = useTranslation('ns')'' = []"
    by code_simp
  then show "map_of (globalTranslationMap
            (exampleSys [(''a.tsx'', ''const { t : x } = useTranslation('ns')'')] [])
            insertionOrder [''a.tsx'']) ''x'' = None"
    by (simp add: globalTranslationMap_def extractUseTranslationDeclarations_def exampleSys_def
        insertionOrder_def)
  have "isQuote sq" "\<forall>c \<in> set ''x''. isWord c" "\<forall>c \<in> set '')''. \<not> isQuote c"
    by (simp_all add: isQuote_def isWord_def isAlnum_def isAlpha_def isLower_def isUpper_def)
  then have "declToken ''x'' '')'' (''const { t: '' @ ''x'' @ '' } = useTranslation('' @ [sq] @ '')'' @ [sq] @ '')'')"
    by (intro decl_form) simp_all
  then show "declToken ''x'' '')'' ''const { t: x } = useTranslation(')')''"
    by simp
  have "findAllDecls (''const{t:a}=useTranslation(\"'' @ ''const { t: x } = useTranslation(')')'')
      = [(''a'', ''const { t: x } = useTranslation('')]"
    by code_simp
  then show "map_of (globalTranslationMap
            (exampleSys [(''a.tsx'',
               ''const{t:a}=useTranslation(\"'' @ ''const { t: x } = useTranslation(')')'')] [])
            insertionOrder [''a.tsx'']) ''x'' = None"
    by (simp add: globalTranslationMap_def extractUseTranslationDeclarations_def exampleSys_def
        insertionOrder_def)
qed

text \<open>
  C3, amended. The declarations of a file are the successive leftmost, non-overlapping
  occurrences of the pattern: \<^verbatim>\<open>const\<close>, \<^verbatim>\<open>{\<close>, \<^verbatim>\<open>t:\<close>, an alias of word characters, \<^verbatim>\<open>}\<close>,
  \<^verbatim>\<open>=\<close>, \<^verbatim>\<open>useTranslation\<close>, \<^verbatim>\<open>(\<close>, a quote, a namespace free of quotes, a quote, \<^verbatim>\<open>)\<close>,
  with optional white space between any two of these but the quotes and the namespace
  (and none inside \<^verbatim>\<open>t:\<close>); \<^verbatim>\<open>const { t: x } = useTranslation('ns')\<close> is such a text with
  either quote on either side. The alias map binds each alias to the namespace of its
  last declaration, the declarations taken file by file in the order of the walk and
  inside a file in the order of the scan.
\<close>

theorem declaration_collection:
  assumes "permuting ords"
  shows "(\<exists>mss. list_all2 (declsIn sys) paths mss) \<and>
         (\<forall>mss. list_all2 (declsIn sys) paths mss \<longrightarrow>
            map_of (globalTranslationMap sys ords paths) = map_of (rev (concat mss))) \<and>
         (\<forall>x ns q1 q2. x \<noteq> [] \<and> (\<forall>c \<in> set x. isWord c) \<and> ns \<noteq> [] \<and>
            (\<forall>c \<in> set ns. \<not> isQuote c) \<and> isQuote q1 \<and> isQuote q2 \<longrightarrow>
            declToken x ns
              (''const { t: '' @ x @ '' } = useTranslation('' @ [q1] @ ns @ [q2] @ '')''))"
proof (intro conjI allI impI)
  show "\<exists>mss. list_all2 (declsIn sys) paths mss"
    unfolding list_all2_declsIn by simp
next
  fix mss
  assume "list_all2 (declsIn sys) paths mss"
  then have "mss = map (declsOf sys) paths"
    by (simp only: list_all2_declsIn)
  then show "map_of (globalTranslationMap sys ords paths) = map_of (rev (concat mss))"
    by (simp only: globalTranslationMap_map_of [OF assms])
next
  fix x ns q1 q2
  assume "x \<noteq> [] \<and> (\<forall>c \<in> set x. isWord c) \<and> ns \<noteq> [] \<and>
            (\<forall>c \<in> set ns. \<not> isQuote c) \<and> isQuote q1 \<and> isQuote q2"
  then show "declToken x ns
              (''const { t: '' @ x @ '' } = useTranslation('' @ [q1] @ ns @ [q2] @ '')'')"
    by (intro decl_form) simp_all
qed

theorem declaration_collection_witness:
  "permuting insertionOrder \<and>
   list_all2
     (declsIn (exampleSys
        [(''a.tsx'', ''const { t: tUser } = useTranslation('user') const{t:tA}=useTranslation(\"a1\")''),
         (''b.tsx'', ''const { t: tUser } = useTranslation(\"member')'')] []))
     [''a.tsx'', ''b.tsx'']
     [[(''tUser'', ''user''), (''tA'', ''a1'')], [(''tUser'', ''member'')]] \<and>
   map_of (globalTranslationMap (exampleSys
        [(''a.tsx'', ''const { t: tUser } = useTranslation('user') const{t:tA}=useTranslation(\"a1\")''),
         (''b.tsx'', ''const { t: tUser } = useTranslation(\"member')'')] [])
      insertionOrder [''a.tsx'', ''b.tsx''])
     = map_of [(''tUser'', ''member''), (''tA'', ''a1''), (''tUser'', ''user'')]"
proof -
  let ?a = "''const { t: tUser } = useTranslation('user') const{t:tA}=useTranslation(\"a1\")''"
  let ?b = "''const { t: tUser } = useTranslation(\"member')''"
  let ?sys = "exampleSys [(''a.tsx'', ?a), (''b.tsx'', ?b)] []"
  have p: "permuting insertionOrder"
    by (simp add: permuting_def insertionOrder_def)
  have a: "findAllDecls ?a = [(''tUser'', ''user''), (''tA'', ''a1'')]"
    by code_simp
  have b: "findAllDecls ?b = [(''tUser'', ''member'')]"
    by code_simp
  have "leftmostDecls ?a (findAllDecls ?a)" "leftmostDecls ?b (findAllDecls ?b)"
    by (rule leftmostDecls_findAllDecls)+
  then have l: "list_all2 (declsIn ?sys) [''a.tsx'', ''b.tsx'']
      [[(''tUser'', ''user''), (''tA'', ''a1'')], [(''tUser'', ''member'')]]"
    unfolding a b by (simp add: declsIn_def exampleSys_def)
  have c: "rev (concat [[(''tUser'', ''user''), (''tA'', ''a1'')], [(''tUser'', ''member'')]])
      = [(''tUser'', ''member''), (''tA'', ''a1''), (''tUser'', ''user'')]"
    by simp
  from declaration_collection [OF p, of ?sys "[''a.tsx'', ''b.tsx'']"] l
  have "map_of (globalTranslationMap ?sys insertionOrder [''a.tsx'', ''b.tsx''])
      = map_of (rev (concat [[(''tUser'', ''user''), (''tA'', ''a1'')], [(''tUser'', ''member'')]]))"
    by blast
  then have e: "map_of (globalTranslationMap ?sys insertionOrder [''a.tsx'', ''b.tsx''])
      = map_of [(''tUser'', ''member''), (''tA'', ''a1''), (''tUser'', ''user'')]"
    unfolding c .
  show ?thesis
    by (rule conjI [OF p conjI [OF l e]])
qed

text \<open>
  C10. In both patterns the two quotes of the string literal need not be the same
  character: \<^verbatim>\<open>useTranslation('common")\<close> binds the namespace \<^verbatim>\<open>common\<close>. Every captured
  key and namespace, every namespace of the alias map and every key and namespace of an
  extracted entry is non-empty and holds no quote of either kind.
\<close>

theorem quotes_may_differ_and_captures_hold_no_quote:
  assumes "permuting ords" "isQuote q1" "isQuote q2"
  shows "findAllDecls (''const { t: x } = useTranslation('' @ [q1] @ ''common'' @ [q2] @ '')'')
           = [(''x'', ''common'')] \<and>
         findAllCalls False (''tX('' @ [q1] @ ''key'' @ [q2] @ '')'') = [(''tX'', ''key'')] \<and>
         (\<forall>(x, ns) \<in> set (findAllDecls s). ns \<noteq> [] \<and> (\<forall>c \<in> set ns. \<not> isQuote c)) \<and>
         (\<forall>(a, k) \<in> set (findAllCalls prevWord s). k \<noteq> [] \<and> (\<forall>c \<in> set k. \<not> isQuote c)) \<and>
         (\<forall>(x, ns) \<in> set (globalTranslationMap sys ords paths).
            ns \<noteq> [] \<and> (\<forall>c \<in> set ns. \<not> isQuote c)) \<and>
         (\<forall>keys. extractTranslationKeys sys ords rootDir root = Inr keys \<longrightarrow>
            (\<forall>e \<in> set keys. Key e \<noteq> [] \<and> (\<forall>c \<in> set (Key e). \<not> isQuote c) \<and>
               Namespace e \<noteq> [] \<and> (\<forall>c \<in> set (Namespace e). \<not> isQuote c)))"
proof (intro conjI)
  have "\<forall>c \<in> set ''x''. isWord c" "\<forall>c \<in> set ''common''. \<not> isQuote c"
    by (simp_all add: isQuote_def isWord_def isAlnum_def isAlpha_def isLower_def isUpper_def)
  then have "declToken ''x'' ''common''
      (''const { t: '' @ ''x'' @ '' } = useTranslation('' @ [q1] @ ''common'' @ [q2] @ '')'')"
    using assms(2,3) by (intro decl_form) simp_all
  from findAllDecls_single [OF this]
  show "findAllDecls (''const { t: x } = useTranslation('' @ [q1] @ ''common'' @ [q2] @ '')'')
           = [(''x'', ''common'')]"
    by simp
  have "isAlpha (CHR ''X'')" "\<forall>c \<in> set ''key''. \<not> isQuote c"
    by (simp_all add: isQuote_def isAlpha_def isUpper_def)
  then have "callToken (CHR ''t'' # CHR ''X'' # []) ''key''
      ((CHR ''t'' # CHR ''X'' # []) @ ''('' @ [q1] @ ''key'' @ [q2] @ '')'')"
    using assms(2,3) by (intro call_form) simp_all
  from findAllCalls_single [OF this]
  show "findAllCalls False (''tX('' @ [q1] @ ''key'' @ [q2] @ '')'') = [(''tX'', ''key'')]"
    by simp
  show "\<forall>(x, ns) \<in> set (findAllDecls s). ns \<noteq> [] \<and> (\<forall>c \<in> set ns. \<not> isQuote c)"
    using findAllDecls_tokens declToken_parts(3,4) by fastforce
  show "\<forall>(a, k) \<in> set (findAllCalls prevWord s). k \<noteq> [] \<and> (\<forall>c \<in> set k. \<not> isQuote c)"
    using findAllCalls_tokens callToken_key by fastforce
  show g: "\<forall>(x, ns) \<in> set (globalTranslationMap sys ords paths).
            ns \<noteq> [] \<and> (\<forall>c \<in> set ns. \<not> isQuote c)" for paths
    using globalTranslationMap_clean [OF assms(1)] by fastforce
  show "\<forall>keys. extractTranslationKeys sys ords rootDir root = Inr keys \<longrightarrow>
            (\<forall>e \<in> set keys. Key e \<noteq> [] \<and> (\<forall>c \<in> set (Key e). \<not> isQuote c) \<and>
               Namespace e \<noteq> [] \<and> (\<forall>c \<in> set (Namespace e). \<not> isQuote c))"
  proof (intro allI impI ballI)
    fix keys e
    assume k: "extractTranslationKeys sys ords rootDir root = Inr keys" and e: "e \<in> set keys"
    from k obtain ps where ps: "walkDir sys rootDir root = Inr ps"
      and keys: "keys = fold (\<lambda>path keys.
                       case parseFileWithMapping sys path (globalTranslationMap sys ords ps) of
                         Inl e \<Rightarrow> keys
                       | Inr fileKeys \<Rightarrow> keys @ fileKeys) ps []"
      by (auto simp: extractTranslationKeys_def split: sum.splits)
    from e [unfolded keys] fold_parse_entries [of e sys "globalTranslationMap sys ords ps" ps "[]"]
    obtain p c a k where c: "(a, k) \<in> set (findAllCalls False c)"
      and e': "e = \<lparr>Key = k, Namespace = namespaceFor (globalTranslationMap sys ords ps) a, File = p\<rparr>"
      by auto
    from c obtain t where t: "callToken a k t"
      using findAllCalls_tokens by blast
    show "Key e \<noteq> [] \<and> (\<forall>c \<in> set (Key e). \<not> isQuote c) \<and>
               Namespace e \<noteq> [] \<and> (\<forall>c \<in> set (Namespace e). \<not> isQuote c)"
      using callToken_key [OF t] namespaceFor_clean [OF t g [of ps]] e' by simp
  qed
qed

theorem quotes_may_differ_and_captures_hold_no_quote_witness:
  "permuting insertionOrder \<and> isQuote sq \<and> isQuote dq \<and>
   findAllDecls ''const { t: x } = useTranslation('common\")'' = [(''x'', ''common'')] \<and>
   findAllCalls False ''tX('key\")'' = [(''tX'', ''key'')] \<and>
   extractTranslationKeys
     (exampleSys [(''/w/a.tsx'', ''const { t: tX } = useTranslation(\"common') tX('key\") tUser('n')'')] [])
     insertionOrder ''/w'' (DirNode ''w'' [FileNode ''a.tsx''])
     = Inr [\<lparr>Key = ''key'', Namespace = ''common'', File = ''/w/a.tsx''\<rparr>,
            \<lparr>Key = ''n'', Namespace = ''user'', File = ''/w/a.tsx''\<rparr>] \<and>
   list_all (\<lambda>c. \<not> isQuote c) ''common''"
proof -
  let ?c = "''const { t: tX } = useTranslation(\"common') tX('key\") tUser('n')''"
  let ?sys = "exampleSys [(''/w/a.tsx'', ?c)] []"
  have p: "permuting insertionOrder"
    by (simp add: permuting_def insertionOrder_def)
  have q: "isQuote sq" "isQuote dq"
    by (simp_all add: isQuote_def)
  have d: "findAllDecls ?c = [(''tX'', ''common'')]"
    by code_simp
  have c: "findAllCalls False ?c = [(''tX'', ''key''), (''tUser'', ''n'')]"
    by code_simp
  have l: "strings_ToLower ''User'' = ''user''"
    by code_simp
  have w: "walkDir ?sys ''/w'' (DirNode ''w'' [FileNode ''a.tsx'']) = Inr [''/w/a.tsx'']"
    by (simp add: exampleSys_def shouldSkipDir_def strings_HasSuffix_def)
  have r: "ReadFile ?sys ''/w/a.tsx'' = Some ?c"
    by (simp add: exampleSys_def)
  have g: "globalTranslationMap ?sys insertionOrder [''/w/a.tsx''] = [(''tX'', ''common'')]"
    using r d by (simp add: globalTranslationMap_def extractUseTranslationDeclarations_def
        insertionOrder_def)
  have e: "extractTranslationKeys ?sys insertionOrder ''/w'' (DirNode ''w'' [FileNode ''a.tsx''])
     = Inr [\<lparr>Key = ''key'', Namespace = ''common'', File = ''/w/a.tsx''\<rparr>,
            \<lparr>Key = ''n'', Namespace = ''user'', File = ''/w/a.tsx''\<rparr>]"
  proof -
    have "parseFileWithMapping ?sys ''/w/a.tsx'' [(''tX'', ''common'')]
        = Inr [\<lparr>Key = ''key'', Namespace = ''common'', File = ''/w/a.tsx''\<rparr>,
               \<lparr>Key = ''n'', Namespace = ''user'', File = ''/w/a.tsx''\<rparr>]"
      unfolding parseFileWithMapping_map [OF r] c
      by (simp add: namespaceFor_def strings_HasPrefix_def l)
    then show ?thesis
      by (simp add: extractTranslationKeys_def w g del: walkDir.simps)
  qed
  note t = quotes_may_differ_and_captures_hold_no_quote [OF p q, of "[]" False ?sys "[]"
      "''/w''" "DirNode ''w'' [FileNode ''a.tsx'']"]
  from t have 1: "findAllDecls ''const { t: x } = useTranslation('common\")'' = [(''x'', ''common'')]"
    by simp
  from t have 2: "findAllCalls False ''tX('key\")'' = [(''tX'', ''key'')]"
    by simp
  from t e have "\<forall>c \<in> set ''common''. \<not> isQuote c"
    by fastforce
  then have 3: "list_all (\<lambda>c. \<not> isQuote c) ''common''"
    by (simp only: list_all_iff)
  from p q 1 2 e 3 show ?thesis
    by blast
qed

text \<open>
  C5. When every file is read and parsed, the merged dictionary is the one the policy
  builds from the dictionaries of the files, one after the other in the order given; so
  each key has its first value that is not empty, or the empty value when it has no
  other. The order in which \<^verbatim>\<open>range\<close> visits a dictionary plays no part.
\<close>

theorem merge_policy:
  assumes "permuting ords" "map (parsed sys) files = map Some mems"
  shows "\<exists>merged. snd (mergeJSONFiles sys ords files) = Inr merged \<and>
           distinct (map fst merged) \<and>
           map_of merged = foldl mergePolicy Map.empty (map dictOf mems) \<and>
           (\<forall>key. map_of merged key = firstNonEmpty (map dictOf mems) key)"
proof -
  from mergeLoop_result [OF assms, of "[]" 0] obtain m where
    m: "snd (mergeLoop sys ords 0 files []) = Inr m" "distinct (map fst m)"
      "map_of m = foldl mergePolicy Map.empty (map dictOf mems)"
    by auto
  have "\<forall>key. map_of m key = firstNonEmpty (map dictOf mems) key"
    unfolding m(3) by (simp add: foldl_mergePolicy)
  with m show ?thesis
    unfolding mergeJSONFiles_def by blast
qed

theorem merge_policy_witness:
  "permuting insertionOrder \<and>
   map (parsed (exampleSys
          [(''common.json'', ''{\"a\":\"\",\"b\":\"x\"}''), (''common2.json'', ''{\"a\":\"y\",\"b\":\"z\"}'')]
          [(''{\"a\":\"\",\"b\":\"x\"}'', [(''a'', ''''), (''b'', ''x'')]),
           (''{\"a\":\"y\",\"b\":\"z\"}'', [(''a'', ''y''), (''b'', ''z'')])]))
     [''common.json'', ''common2.json'']
     = map Some [[(''a'', ''''), (''b'', ''x'')], [(''a'', ''y''), (''b'', ''z'')]] \<and>
   snd (mergeJSONFiles (exampleSys
          [(''common.json'', ''{\"a\":\"\",\"b\":\"x\"}''), (''common2.json'', ''{\"a\":\"y\",\"b\":\"z\"}'')]
          [(''{\"a\":\"\",\"b\":\"x\"}'', [(''a'', ''''), (''b'', ''x'')]),
           (''{\"a\":\"y\",\"b\":\"z\"}'', [(''a'', ''y''), (''b'', ''z'')])])
        insertionOrder [''common.json'', ''common2.json''])
     = Inr [(''a'', ''y''), (''b'', ''x'')] \<and>
   firstNonEmpty (map dictOf [[(''a'', ''''), (''b'', ''x'')], [(''a'', ''y''), (''b'', ''z'')]]) ''a''
     = Some ''y'' \<and>
   firstNonEmpty (map dictOf [[(''a'', ''''), (''b'', ''x'')], [(''a'', ''y''), (''b'', ''z'')]]) ''b''
     = Some ''x''"
proof -
  let ?c1 = "''{\"a\":\"\",\"b\":\"x\"}''"
  let ?c2 = "''{\"a\":\"y\",\"b\":\"z\"}''"
  let ?m1 = "[(''a'', ''''), (''b'', ''x'')]"
  let ?m2 = "[(''a'', ''y''), (''b'', ''z'')]"
  let ?sys = "exampleSys [(''common.json'', ?c1), (''common2.json'', ?c2)] [(?c1, ?m1), (?c2, ?m2)]"
  have p: "permuting insertionOrder"
    by (simp add: permuting_def insertionOrder_def)
  have f: "map (parsed ?sys) [''common.json'', ''common2.json''] = map Some [?m1, ?m2]"
    by (simp add: parsed_def exampleSys_def)
  have e: "snd (mergeJSONFiles ?sys insertionOrder [''common.json'', ''common2.json''])
      = Inr [(''a'', ''y''), (''b'', ''x'')]"
    by (simp add: mergeJSONFiles_def exampleSys_def insertionOrder_def mergeEntry_def)
  from merge_policy [OF p f] obtain merged where
    m: "snd (mergeJSONFiles ?sys insertionOrder [''common.json'', ''common2.json'']) = Inr merged"
    and n: "\<forall>key. map_of merged key = firstNonEmpty (map dictOf [?m1, ?m2]) key"
    by blast
  from m [symmetric] e have "Inr merged = (Inr [(''a'', ''y''), (''b'', ''x'')] :: error + _)"
    by (rule trans)
  then have "merged = [(''a'', ''y''), (''b'', ''x'')]"
    by (simp only: sum.inject)
  with n
  have k: "\<forall>key. map_of [(''a'', ''y''), (''b'', ''x'')] key = firstNonEmpty (map dictOf [?m1, ?m2]) key"
    by blast
  have a: "firstNonEmpty (map dictOf [?m1, ?m2]) ''a'' = Some ''y''"
    using k [rule_format, of "''a''"] by simp
  have b: "firstNonEmpty (map dictOf [?m1, ?m2]) ''b'' = Some ''x''"
    using k [rule_format, of "''b''"] by simp
  from p f e a b show ?thesis
    by blast
qed

text \<open>
  C7. Merging the files of a first batch, writing the result to a file and merging that
  file with the files of a second batch gives every key the value that merging all the
  files at once, in the same order, gives it.
\<close>

theorem merge_in_batches:
  assumes "permuting ords"
    and "map (parsed sys) fa = map Some ma"
    and "map (parsed sys) fb = map Some mb"
    and "snd (mergeJSONFiles sys ords fa) = Inr part"
    and "parsed sys r = Some mr"
    and "dictOf mr = map_of part"
  shows "\<exists>full again.
           snd (mergeJSONFiles sys ords (fa @ fb)) = Inr full \<and>
           snd (mergeJSONFiles sys ords (r # fb)) = Inr again \<and>
           map_of again = map_of full"
proof -
  from merge_policy [OF assms(1,2)] assms(4)
  have part: "map_of part = foldl mergePolicy Map.empty (map dictOf ma)"
    by auto
  have "map (parsed sys) (fa @ fb) = map Some (ma @ mb)"
    using assms(2,3) by simp
  from merge_policy [OF assms(1) this] obtain full where
    full: "snd (mergeJSONFiles sys ords (fa @ fb)) = Inr full"
      "map_of full = foldl mergePolicy Map.empty (map dictOf (ma @ mb))"
    by blast
  have "map (parsed sys) (r # fb) = map Some (mr # mb)"
    using assms(3,5) by simp
  from merge_policy [OF assms(1) this] obtain again where
    again: "snd (mergeJSONFiles sys ords (r # fb)) = Inr again"
      "map_of again = foldl mergePolicy Map.empty (map dictOf (mr # mb))"
    by blast
  have "map_of again = foldl mergePolicy (map_of part) (map dictOf mb)"
    unfolding again(2) by (simp add: mergePolicy_empty assms(6))
  also have "\<dots> = map_of full"
    unfolding full(2) part by simp
  finally show ?thesis
    using full(1) again(1) by blast
qed

theorem merge_in_batches_witness:
  "permuting reverseOrder \<and>
   snd (mergeJSONFiles (exampleSys
          [(''a.json'', ''A''), (''b.json'', ''B''), (''c.json'', ''C''), (''ab.json'', ''AB'')]
          [(''A'', [(''k'', ''''), (''m'', ''1'')]), (''B'', [(''k'', ''2''), (''n'', '''')]),
           (''C'', [(''k'', ''3''), (''n'', ''4''), (''m'', ''5'')]),
           (''AB'', [(''k'', ''2''), (''m'', ''1''), (''n'', '''')])])
        reverseOrder [''a.json'', ''b.json''])
     = Inr [(''m'', ''1''), (''k'', ''2''), (''n'', '''')] \<and>
   (\<exists>full again.
      snd (mergeJSONFiles (exampleSys
          [(''a.json'', ''A''), (''b.json'', ''B''), (''c.json'', ''C''), (''ab.json'', ''AB'')]
          [(''A'', [(''k'', ''''), (''m'', ''1'')]), (''B'', [(''k'', ''2''), (''n'', '''')]),
           (''C'', [(''k'', ''3''), (''n'', ''4''), (''m'', ''5'')]),
           (''AB'', [(''k'', ''2''), (''m'', ''1''), (''n'', '''')])])
        reverseOrder ([''a.json'', ''b.json''] @ [''c.json''])) = Inr full \<and>
      snd (mergeJSONFiles (exampleSys
          [(''a.json'', ''A''), (''b.json'', ''B''), (''c.json'', ''C''), (''ab.json'', ''AB'')]
          [(''A'', [(''k'', ''''), (''m'', ''1'')]), (''B'', [(''k'', ''2''), (''n'', '''')]),
           (''C'', [(''k'', ''3''), (''n'', ''4''), (''m'', ''5'')]),
           (''AB'', [(''k'', ''2''), (''m'', ''1''), (''n'', '''')])])
        reverseOrder (''ab.json'' # [''c.json''])) = Inr again \<and>
      map_of again = map_of full \<and>
      map_of full ''k'' = Some ''2'' \<and> map_of full ''n'' = Some ''4'')"
proof -
  let ?sys = "exampleSys
          [(''a.json'', ''A''), (''b.json'', ''B''), (''c.json'', ''C''), (''ab.json'', ''AB'')]
          [(''A'', [(''k'', ''''), (''m'', ''1'')]), (''B'', [(''k'', ''2''), (''n'', '''')]),
           (''C'', [(''k'', ''3''), (''n'', ''4''), (''m'', ''5'')]),
           (''AB'', [(''k'', ''2''), (''m'', ''1''), (''n'', '''')])]"
  have p: "permuting reverseOrder"
    by (simp add: permuting_def reverseOrder_def)
  have a: "map (parsed ?sys) [''a.json'', ''b.json'']
      = map Some [[(''k'', ''''), (''m'', ''1'')], [(''k'', ''2''), (''n'', '''')]]"
    by (simp add: parsed_def exampleSys_def)
  have b: "map (parsed ?sys) [''c.json''] = map Some [[(''k'', ''3''), (''n'', ''4''), (''m'', ''5'')]]"
    by (simp add: parsed_def exampleSys_def)
  have r: "parsed ?sys ''ab.json'' = Some [(''k'', ''2''), (''m'', ''1''), (''n'', '''')]"
    by (simp add: parsed_def exampleSys_def)
  have e: "snd (mergeJSONFiles ?sys reverseOrder [''a.json'', ''b.json''])
      = Inr [(''m'', ''1''), (''k'', ''2''), (''n'', '''')]"
    by (simp add: mergeJSONFiles_def exampleSys_def reverseOrder_def mergeEntry_def)
  have d: "dictOf [(''k'', ''2''), (''m'', ''1''), (''n'', '''')]
      = map_of [(''m'', ''1''), (''k'', ''2''), (''n'', '''')]"
    by (auto simp: dictOf_def fun_eq_iff)
  from merge_in_batches [OF p a b e r d] obtain full again where
    1: "snd (mergeJSONFiles ?sys reverseOrder ([''a.json'', ''b.json''] @ [''c.json''])) = Inr full"
    and 2: "snd (mergeJSONFiles ?sys reverseOrder (''ab.json'' # [''c.json''])) = Inr again"
    and 3: "map_of again = map_of full"
    by blast
  have "snd (mergeJSONFiles ?sys reverseOrder ([''a.json'', ''b.json''] @ [''c.json'']))
      = Inr [(''m'', ''1''), (''k'', ''2''), (''n'', ''4'')]"
    by (simp add: mergeJSONFiles_def exampleSys_def reverseOrder_def mergeEntry_def)
  with 1 [symmetric] have "Inr full = (Inr [(''m'', ''1''), (''k'', ''2''), (''n'', ''4'')] :: error + _)"
    by (rule trans)
  then have "full = [(''m'', ''1''), (''k'', ''2''), (''n'', ''4'')]"
    by (simp only: sum.inject)
  then have "map_of full ''k'' = Some ''2''" "map_of full ''n'' = Some ''4''"
    by simp_all
  with 1 2 3 p e show ?thesis
    by blast
qed

end
